theory Spec2Isabelle
  imports Main
begin

unbundle bit_operations_syntax

section \<open>Dots and Boxes: the data model of main.py\<close>

text \<open>
  The class attributes \<^verbatim>\<open>Game.LINES\<close>, \<^verbatim>\<open>Game.COLUMNS\<close>, \<^verbatim>\<open>Game.MIN\<close>, \<^verbatim>\<open>Game.MAX\<close> and
  \<^verbatim>\<open>Game.VAR\<close> are process-wide settings written once before the first game object
  exists. They are passed explicitly as a record. \<^verbatim>\<open>MIN\<close> and \<^verbatim>\<open>MAX\<close> are reserved words of
  the term language, so the two player fields carry the suffix \<open>_sym\<close>.
\<close>

record config =
  LINES :: int
  COLUMNS :: int
  MIN_sym :: string
  MAX_sym :: string
  VAR :: int

text \<open>
  \<^verbatim>\<open>read_symbol\<close> and \<^verbatim>\<open>read_lines_and_columns\<close> only ever store these
  configurations: the human picks X or O, the computer gets the other symbol, and the
  number of dots per side is between 2 and 8.
\<close>

definition valid_config :: "config \<Rightarrow> bool" where
  "valid_config cfg \<longleftrightarrow>
     1 \<le> LINES cfg \<and> LINES cfg \<le> 7 \<and> 1 \<le> COLUMNS cfg \<and> COLUMNS cfg \<le> 7 \<and>
     (MIN_sym cfg = ''X'' \<or> MIN_sym cfg = ''O'') \<and>
     MAX_sym cfg = (if MIN_sym cfg = ''X'' then ''O'' else ''X'')"

text \<open>The exceptions the modelled code can raise.\<close>

datatype error = IndexError | TypeError | ValueError | AttributeError

definition ebind :: "error + 'a \<Rightarrow> ('a \<Rightarrow> error + 'b) \<Rightarrow> error + 'b" where
  "ebind m f = (case m of Inl e \<Rightarrow> Inl e | Inr x \<Rightarrow> f x)"

text \<open>
  A box is the tuple (segment code, owner); the owner is the one-character string
  \<^verbatim>\<open>' '\<close> while nobody owns the box. The board is a list of rows.
  \<^verbatim>\<open>last_segment\<close> is \<^verbatim>\<open>(None, None, None)\<close> until the first segment is drawn and a
  triple (line, column, player) afterwards; the all-\<^verbatim>\<open>None\<close> triple is \<open>None\<close> here.
\<close>

type_synonym box = "int \<times> string"

record game =
  board :: "box list list"
  score_min :: int
  score_max :: int
  filled_box :: bool
  last_segment :: "(int \<times> int \<times> string) option"

definition Game_init :: "config \<Rightarrow> game" where
  "Game_init cfg =
     \<lparr>board = replicate (nat (LINES cfg)) (replicate (nat (COLUMNS cfg)) (0, '' '')),
      score_min = 0, score_max = 0, filled_box = False, last_segment = None\<rparr>"

text \<open>
  List subscripts as Python evaluates them: a negative index counts from the end, and
  an index outside the list raises \<^verbatim>\<open>IndexError\<close>.
\<close>

definition py_index :: "'a list \<Rightarrow> int \<Rightarrow> error + nat" where
  "py_index xs i =
     (let n = int (length xs); k = (if i < 0 then i + n else i)
      in if 0 \<le> k \<and> k < n then Inr (nat k) else Inl IndexError)"

definition py_get :: "'a list \<Rightarrow> int \<Rightarrow> error + 'a" where
  "py_get xs i = ebind (py_index xs i) (\<lambda>k. Inr (xs ! k))"

definition py_set :: "'a list \<Rightarrow> int \<Rightarrow> 'a \<Rightarrow> error + 'a list" where
  "py_set xs i v = ebind (py_index xs i) (\<lambda>k. Inr (xs[k := v]))"

definition board_get :: "box list list \<Rightarrow> int \<Rightarrow> int \<Rightarrow> error + box" where
  "board_get b i j = ebind (py_get b i) (\<lambda>row. py_get row j)"

definition board_set :: "box list list \<Rightarrow> int \<Rightarrow> int \<Rightarrow> box \<Rightarrow> error + box list list" where
  "board_set b i j v =
     ebind (py_get b i) (\<lambda>row. ebind (py_set row j v) (\<lambda>row'. py_set b i row'))"

section \<open>Edge placement\<close>

definition in_scope :: "config \<Rightarrow> int \<Rightarrow> int \<Rightarrow> bool" where
  "in_scope cfg i j \<longleftrightarrow> 0 \<le> i \<and> i < LINES cfg \<and> 0 \<le> j \<and> j < COLUMNS cfg"

text \<open>
  \<^verbatim>\<open>complete_box\<close> adds the direction code to the box with \<^verbatim>\<open>+\<close>, records the last
  segment, and when the low four bits are all set marks the box as owned and
  increments the score of \<^verbatim>\<open>player\<close> (\<^verbatim>\<open>score_min\<close> if the player is MIN, \<^verbatim>\<open>score_max\<close>
  in every other case).
\<close>

definition complete_box :: "config \<Rightarrow> game \<Rightarrow> int \<Rightarrow> int \<Rightarrow> int \<Rightarrow> string \<Rightarrow> error + game" where
  "complete_box cfg g d i j player =
     ebind (board_get (board g) i j) (\<lambda>(bits, own).
     ebind (board_set (board g) i j (bits + d, own)) (\<lambda>b1.
       let g1 = g\<lparr>board := b1, last_segment := Some (i, j, player)\<rparr>
       in if (bits + d) AND 15 = 15
          then ebind (board_set b1 i j (bits + d, player)) (\<lambda>b2.
                 let g2 = g1\<lparr>filled_box := True, board := b2\<rparr>
                 in if player = MIN_sym cfg
                    then Inr (g2\<lparr>score_min := score_min g2 + 1\<rparr>)
                    else Inr (g2\<lparr>score_max := score_max g2 + 1\<rparr>))
          else Inr g1))"

text \<open>
  A direction is the tuple (code in this box, line offset of the neighbour, column
  offset of the neighbour, code in the neighbour). \<^verbatim>\<open>add_segment\<close> returns \<^verbatim>\<open>None\<close>
  (here \<open>Inr None\<close>) when the segment is already drawn in box \<open>(i, j)\<close>.
\<close>

type_synonym direction = "int \<times> int \<times> int \<times> int"

definition dir_up :: direction where "dir_up = (8, -1, 0, 2)"
definition dir_left :: direction where "dir_left = (1, 0, -1, 4)"
definition dir_right :: direction where "dir_right = (4, 0, 1, 1)"
definition dir_down :: direction where "dir_down = (2, 1, 0, 8)"

text \<open>The list of directions that \<^verbatim>\<open>open_boxes_2\<close> iterates over.\<close>

definition directions :: "direction list" where
  "directions = [dir_up, dir_left, dir_right, dir_down]"

definition add_segment ::
  "config \<Rightarrow> game \<Rightarrow> direction \<Rightarrow> int \<Rightarrow> int \<Rightarrow> string \<Rightarrow> error + game option" where
  "add_segment cfg g d i j player =
     (case d of (d0, d1, d2, d3) \<Rightarrow>
        ebind (board_get (board g) i j) (\<lambda>(bits, own).
          if bits AND d0 = 0
          then ebind (complete_box cfg g d0 i j player) (\<lambda>g1.
                 if in_scope cfg (i + d1) (j + d2)
                 then ebind (complete_box cfg g1 d3 (i + d1) (j + d2) player) (\<lambda>g2. Inr (Some g2))
                 else Inr (Some g1))
          else Inr None))"

section \<open>Move generator\<close>

text \<open>
  \<^verbatim>\<open>Game.moves\<close> calls \<^verbatim>\<open>add_segment\<close> on a fresh deep copy of the game for each entry
  of the sequence below, in this order: for every line, the upper and the left segment of
  every box and then the right segment of the last box of the line; finally the lower
  segment of every box of the last line.
\<close>

definition move_calls :: "config \<Rightarrow> (direction \<times> int \<times> int) list" where
  "move_calls cfg =
     concat (map (\<lambda>i.
         concat (map (\<lambda>j. [(dir_up, i, j), (dir_left, i, j)]) [0..COLUMNS cfg - 1])
         @ [(dir_right, i, COLUMNS cfg - 1)])
       [0..LINES cfg - 1])
     @ map (\<lambda>j. (dir_down, LINES cfg - 1, j)) [0..COLUMNS cfg - 1]"

fun traverse :: "('a \<Rightarrow> error + 'b) \<Rightarrow> 'a list \<Rightarrow> error + 'b list" where
  "traverse f [] = Inr []"
| "traverse f (x # xs) = ebind (f x) (\<lambda>y. ebind (traverse f xs) (\<lambda>ys. Inr (y # ys)))"

definition moves_Game :: "config \<Rightarrow> game \<Rightarrow> string \<Rightarrow> error + game option list" where
  "moves_Game cfg g player =
     traverse (\<lambda>(d, i, j). add_segment cfg g d i j player) (move_calls cfg)"

section \<open>Evaluator\<close>

text \<open>\<^verbatim>\<open>Game.final\<close> returns \<^verbatim>\<open>False\<close> or one of the strings 'tie', MIN, MAX.\<close>

datatype pyval = PyFalse | PyStr string

definition truthy :: "pyval \<Rightarrow> bool" where
  "truthy v = (case v of PyFalse \<Rightarrow> False | PyStr s \<Rightarrow> s \<noteq> [])"

definition final :: "config \<Rightarrow> game \<Rightarrow> pyval" where
  "final cfg g =
     (if score_min g + score_max g \<noteq> LINES cfg * COLUMNS cfg then PyFalse
      else if score_min g = score_max g then PyStr ''tie''
      else if score_min g > score_max g then PyStr (MIN_sym cfg)
      else PyStr (MAX_sym cfg))"

definition open_boxes_1 :: "config \<Rightarrow> game \<Rightarrow> string \<Rightarrow> int" where
  "open_boxes_1 cfg g player =
     (if player = MIN_sym cfg then LINES cfg * COLUMNS cfg - score_max g
      else LINES cfg * COLUMNS cfg - score_min g)"

text \<open>
  The body of the \<^verbatim>\<open>for d in [...]\<close> loop of \<^verbatim>\<open>open_boxes_2\<close>: every call works on the
  same game object, which \<^verbatim>\<open>add_segment\<close> mutates, and reads the position from its
  \<^verbatim>\<open>last_segment\<close> at the time of the call. Subscripting the board with \<^verbatim>\<open>None\<close> raises
  \<^verbatim>\<open>TypeError\<close>.
\<close>

fun open_boxes_2_for ::
  "config \<Rightarrow> string \<Rightarrow> game \<Rightarrow> int \<Rightarrow> direction list \<Rightarrow> error + game \<times> int" where
  "open_boxes_2_for cfg player g count [] = Inr (g, count)"
| "open_boxes_2_for cfg player g count (d # ds) =
     (case last_segment g of
        None \<Rightarrow> Inl TypeError
      | Some (i, j, p) \<Rightarrow>
          ebind (add_segment cfg g d i j player) (\<lambda>r.
            case r of
              None \<Rightarrow> open_boxes_2_for cfg player g count ds
            | Some g' \<Rightarrow> open_boxes_2_for cfg player g' (count + 1) ds))"

text \<open>
  The \<^verbatim>\<open>while count == 1\<close> loop. Nothing in the source bounds its iterations, so the
  loop is a partial function: \<open>None\<close> means that it does not return.
\<close>

partial_function (option) open_boxes_2_while ::
  "config \<Rightarrow> string \<Rightarrow> game \<Rightarrow> int \<Rightarrow> int \<Rightarrow> (error + int) option" where
  "open_boxes_2_while cfg player g count score =
     (if count = 1
      then (case open_boxes_2_for cfg player g 0 directions of
              Inl e \<Rightarrow> Some (Inl e)
            | Inr (g', count') \<Rightarrow> open_boxes_2_while cfg player g' count' (score + 1))
      else Some (Inr score))"

declare open_boxes_2_while.simps [code]

definition last_player :: "game \<Rightarrow> string option" where
  "last_player g = (case last_segment g of None \<Rightarrow> None | Some (i, j, p) \<Rightarrow> Some p)"

definition open_boxes_2 :: "config \<Rightarrow> game \<Rightarrow> string \<Rightarrow> (error + int) option" where
  "open_boxes_2 cfg g player =
     (let score = (if player = MIN_sym cfg then score_min g else score_max g);
          count = (if (last_player g = Some player \<and> filled_box g) \<or>
                      (last_player g \<noteq> Some player \<and> \<not> filled_box g) then 1 else 0)
      in open_boxes_2_while cfg player g count score)"

definition open_boxes :: "config \<Rightarrow> game \<Rightarrow> string \<Rightarrow> (error + int) option" where
  "open_boxes cfg g player =
     (if VAR cfg = 1 then Some (Inr (open_boxes_1 cfg g player))
      else open_boxes_2 cfg g player)"

text \<open>
  Results of the search layer: \<open>None\<close> when the call does not return, \<open>Some (Inl e)\<close>
  when it raises \<open>e\<close>, \<open>Some (Inr v)\<close> when it returns \<open>v\<close>.
\<close>

type_synonym 'a result = "(error + 'a) option"

definition rbind :: "'a result \<Rightarrow> ('a \<Rightarrow> 'b result) \<Rightarrow> 'b result" where
  "rbind m f = (case m of None \<Rightarrow> None | Some (Inl e) \<Rightarrow> Some (Inl e) | Some (Inr x) \<Rightarrow> f x)"

definition estimate_score :: "config \<Rightarrow> game \<Rightarrow> int result" where
  "estimate_score cfg g =
     (let fin = final cfg g
      in if fin = PyStr (MAX_sym cfg) then Some (Inr 100000)
         else if fin = PyStr (MIN_sym cfg) then Some (Inr (- 100000))
         else if fin = PyStr ''tie'' then Some (Inr 0)
         else rbind (open_boxes cfg g (MAX_sym cfg)) (\<lambda>a.
              rbind (open_boxes cfg g (MIN_sym cfg)) (\<lambda>b. Some (Inr (a - b)))))"

section \<open>Search states\<close>

text \<open>
  A \<^verbatim>\<open>State\<close> object: the game, the player to move, the remaining depth, the score
  (\<^verbatim>\<open>None\<close> until computed), the children and the chosen child. The depth is read from
  the difficulty menu (1, 2 or 3) and both searches decrement it only after the test
  \<^verbatim>\<open>depth == 0\<close> has failed, so it is a natural number here. A state of depth 0 is
  never expanded by either search; \<^verbatim>\<open>State.moves\<close> called on one directly would give its
  children the depth -1, where the definition of the children below gives 0.
\<close>

datatype state =
  State (game: game) (current_player: string) (depth: nat) (score: "int option")
        (possible_moves: "state list") (next_state: "state option")

definition State_init :: "game \<Rightarrow> string \<Rightarrow> nat \<Rightarrow> state" where
  "State_init g player d = State g player d None [] None"

definition set_game :: "game \<Rightarrow> state \<Rightarrow> state" where
  "set_game g st =
     State g (current_player st) (depth st) (score st) (possible_moves st) (next_state st)"

definition set_score :: "int option \<Rightarrow> state \<Rightarrow> state" where
  "set_score v st =
     State (game st) (current_player st) (depth st) v (possible_moves st) (next_state st)"

definition set_possible_moves :: "state list \<Rightarrow> state \<Rightarrow> state" where
  "set_possible_moves ms st =
     State (game st) (current_player st) (depth st) (score st) ms (next_state st)"

definition set_next_state :: "state option \<Rightarrow> state \<Rightarrow> state" where
  "set_next_state n st =
     State (game st) (current_player st) (depth st) (score st) (possible_moves st) n"

definition next_player :: "config \<Rightarrow> state \<Rightarrow> string" where
  "next_player cfg st =
     (if (current_player st = MIN_sym cfg \<and> \<not> filled_box (game st)) \<or>
         (current_player st = MAX_sym cfg \<and> filled_box (game st))
      then MAX_sym cfg else MIN_sym cfg)"

text \<open>
  \<^verbatim>\<open>State.moves\<close>: one child for every game of \<^verbatim>\<open>Game.moves\<close> that is not \<^verbatim>\<open>None\<close>.
  The test \<^verbatim>\<open>game.filled_box\<close> reads the flag of the child's game, a deep copy of the
  parent's game on which \<^verbatim>\<open>add_segment\<close> ran.
\<close>

definition child_state :: "config \<Rightarrow> state \<Rightarrow> game \<Rightarrow> state" where
  "child_state cfg st g =
     State_init g (if \<not> filled_box g then next_player cfg st else current_player st)
       (depth st - 1)"

definition moves_State :: "config \<Rightarrow> state \<Rightarrow> error + state list" where
  "moves_State cfg st =
     ebind (moves_Game cfg (game st) (current_player st)) (\<lambda>games.
       Inr (map (child_state cfg st) (List.map_filter (\<lambda>g. g) games)))"

section \<open>Minimax\<close>

text \<open>
  \<^verbatim>\<open>max(xs, key=lambda x: x.score)\<close> and \<^verbatim>\<open>min\<close>: the first extremal element;
  \<^verbatim>\<open>ValueError\<close> on an empty list, \<^verbatim>\<open>TypeError\<close> when a score that has to be compared
  is \<^verbatim>\<open>None\<close>.
\<close>

definition score_gt :: "int option \<Rightarrow> int option \<Rightarrow> error + bool" where
  "score_gt a b =
     (case a of None \<Rightarrow> Inl TypeError
      | Some x \<Rightarrow> (case b of None \<Rightarrow> Inl TypeError | Some y \<Rightarrow> Inr (x > y)))"

fun py_max_from :: "state \<Rightarrow> state list \<Rightarrow> error + state" where
  "py_max_from best [] = Inr best"
| "py_max_from best (x # xs) =
     ebind (score_gt (score x) (score best)) (\<lambda>b. py_max_from (if b then x else best) xs)"

fun py_min_from :: "state \<Rightarrow> state list \<Rightarrow> error + state" where
  "py_min_from best [] = Inr best"
| "py_min_from best (x # xs) =
     ebind (score_gt (score best) (score x)) (\<lambda>b. py_min_from (if b then x else best) xs)"

definition py_max :: "state list \<Rightarrow> error + state" where
  "py_max xs = (case xs of [] \<Rightarrow> Inl ValueError | x # rest \<Rightarrow> py_max_from x rest)"

definition py_min :: "state list \<Rightarrow> error + state" where
  "py_min xs = (case xs of [] \<Rightarrow> Inl ValueError | x # rest \<Rightarrow> py_min_from x rest)"

definition lift :: "error + 'a \<Rightarrow> 'a result" where
  "lift m = Some m"

fun rtraverse :: "('a \<Rightarrow> 'b result) \<Rightarrow> 'a list \<Rightarrow> 'b list result" where
  "rtraverse f [] = Some (Inr [])"
| "rtraverse f (x # xs) =
     rbind (f x) (\<lambda>y. rbind (rtraverse f xs) (\<lambda>ys. Some (Inr (y # ys))))"

lemma rbind_cong [fundef_cong]:
  "m = m' \<Longrightarrow> (\<And>x. m' = Some (Inr x) \<Longrightarrow> f x = f' x) \<Longrightarrow> rbind m f = rbind m' f'"
  by (auto simp: rbind_def split: option.splits sum.splits)

lemma rtraverse_cong [fundef_cong]:
  "xs = ys \<Longrightarrow> (\<And>x. x \<in> set ys \<Longrightarrow> f x = g x) \<Longrightarrow> rtraverse f xs = rtraverse g ys"
proof (induction ys arbitrary: xs)
  case Nil
  then show ?case by simp
next
  case (Cons y ys)
  then show ?case by (auto intro!: rbind_cong)
qed

lemma moves_State_depth:
  "moves_State cfg st = Inr pm \<Longrightarrow> x \<in> set pm \<Longrightarrow> depth x = depth st - 1"
  by (auto simp: moves_State_def ebind_def child_state_def State_init_def split: sum.splits)

text \<open>
  \<^verbatim>\<open>min_max\<close> mutates the state it is given and returns it; the children in
  \<^verbatim>\<open>possible_moves\<close> are the objects the recursive calls have scored.
\<close>

function min_max :: "config \<Rightarrow> state \<Rightarrow> state result" where
  "min_max cfg st =
     (if depth st = 0 \<or> truthy (final cfg (game st))
      then rbind (estimate_score cfg (game st)) (\<lambda>v. Some (Inr (set_score (Some v) st)))
      else rbind (lift (moves_State cfg st)) (\<lambda>pm.
           rbind (rtraverse (min_max cfg) pm) (\<lambda>moves_score.
           rbind (lift (if current_player st = MAX_sym cfg then py_max moves_score
                        else py_min moves_score)) (\<lambda>nx.
             Some (Inr (set_score (score nx)
               (set_next_state (Some nx) (set_possible_moves moves_score st))))))))"
  by pat_completeness auto
termination
proof (relation "measure (\<lambda>(cfg, st). depth st)")
  show "wf (measure (\<lambda>(cfg, st). depth st))" by simp
next
  fix cfg st pm x
  assume "\<not> (depth st = 0 \<or> truthy (final cfg (game st)))"
    and "lift (moves_State cfg st) = Some (Inr pm)" and "x \<in> set pm"
  then show "((cfg, x), (cfg, st)) \<in> measure (\<lambda>(cfg, st). depth st)"
    using moves_State_depth [of cfg st pm x] by (simp add: lift_def)
qed

section \<open>Alpha-beta\<close>

text \<open>
  \<^verbatim>\<open>current_score\<close> starts as \<^verbatim>\<open>float('-inf')\<close> or \<^verbatim>\<open>float('inf')\<close> and is an integer
  score afterwards.
\<close>

datatype bound = MinusInf | Val int | PlusInf

definition bound_less :: "bound \<Rightarrow> int \<Rightarrow> bool" where
  "bound_less c s = (case c of MinusInf \<Rightarrow> True | Val v \<Rightarrow> v < s | PlusInf \<Rightarrow> False)"

definition bound_greater :: "bound \<Rightarrow> int \<Rightarrow> bool" where
  "bound_greater c s = (case c of MinusInf \<Rightarrow> False | Val v \<Rightarrow> v > s | PlusInf \<Rightarrow> True)"

primrec max_depth :: "state list \<Rightarrow> nat" where
  "max_depth [] = 0"
| "max_depth (x # xs) = max (depth x) (max_depth xs)"

text \<open>
  \<^verbatim>\<open>alpha_beta_for\<close> is the \<^verbatim>\<open>for move in state.possible_moves\<close> loop of
  \<^verbatim>\<open>alpha_beta_state\<close>: its arguments are the loop's variables \<^verbatim>\<open>alpha\<close>, \<^verbatim>\<open>beta\<close>,
  \<^verbatim>\<open>current_score\<close> and \<^verbatim>\<open>state\<close>, the children already visited (mutated in place by
  the recursive calls) and the children still to visit. Taking \<^verbatim>\<open>min\<close> or \<^verbatim>\<open>max\<close> with a
  score that is \<^verbatim>\<open>None\<close> raises \<^verbatim>\<open>TypeError\<close>.
\<close>

function alpha_beta :: "config \<Rightarrow> int \<Rightarrow> int \<Rightarrow> state \<Rightarrow> state result"
  and alpha_beta_state :: "config \<Rightarrow> int \<Rightarrow> int \<Rightarrow> state \<Rightarrow> state result"
  and alpha_beta_for ::
    "config \<Rightarrow> int \<Rightarrow> int \<Rightarrow> bound \<Rightarrow> state \<Rightarrow> state list \<Rightarrow> state list \<Rightarrow> state result"
where
  "alpha_beta cfg alpha beta st =
     (if depth st = 0 \<or> truthy (final cfg (game st))
      then rbind (estimate_score cfg (game st)) (\<lambda>v. Some (Inr (set_score (Some v) st)))
      else if alpha > beta then Some (Inr st)
      else rbind (lift (moves_State cfg st)) (\<lambda>pm.
           rbind (alpha_beta_state cfg alpha beta (set_possible_moves pm st)) (\<lambda>st'.
             case next_state st' of
               None \<Rightarrow> Some (Inl AttributeError)
             | Some nx \<Rightarrow> Some (Inr (set_score (score nx) st')))))"
| "alpha_beta_state cfg alpha beta st =
     alpha_beta_for cfg alpha beta
       (if current_player st = MAX_sym cfg then MinusInf else PlusInf) st [] (possible_moves st)"
| "alpha_beta_for cfg alpha beta current_score st visited [] =
     Some (Inr (set_possible_moves visited st))"
| "alpha_beta_for cfg alpha beta current_score st visited (move # rest) =
     rbind (alpha_beta cfg alpha beta move) (\<lambda>new_state.
       case score new_state of
         None \<Rightarrow> Some (Inl TypeError)
       | Some s \<Rightarrow>
           if current_player st = MAX_sym cfg
           then (let alpha' = min alpha s;
                     better = bound_less current_score s;
                     st' = (if better then set_next_state (Some new_state) st else st);
                     current_score' = (if better then Val s else current_score)
                 in if alpha' \<ge> beta
                    then Some (Inr (set_possible_moves (visited @ new_state # rest) st'))
                    else alpha_beta_for cfg alpha' beta current_score' st'
                           (visited @ [new_state]) rest)
           else (let beta' = max beta s;
                     better = bound_greater current_score s;
                     st' = (if better then set_next_state (Some new_state) st else st);
                     current_score' = (if better then Val s else current_score)
                 in if alpha \<ge> beta'
                    then Some (Inr (set_possible_moves (visited @ new_state # rest) st'))
                    else alpha_beta_for cfg alpha beta' current_score' st'
                           (visited @ [new_state]) rest))"
  by pat_completeness auto

lemma max_depth_le: "x \<in> set xs \<Longrightarrow> depth x \<le> max_depth xs"
  by (induction xs) auto

lemma moves_State_max_depth:
  assumes "moves_State cfg st = Inr pm" and "0 < depth st"
  shows "max_depth pm < depth st"
proof -
  have "\<forall>x\<in>set pm. depth x < depth st"
    using moves_State_depth [OF assms(1)] assms(2) by auto
  then show ?thesis using assms(2) by (induction pm) auto
qed

termination alpha_beta
proof (relation "measures [
   (\<lambda>x. case x of Inl (cfg, a, b, st) \<Rightarrow> 3 * depth st
        | Inr (Inl (cfg, a, b, st)) \<Rightarrow> 3 * max_depth (possible_moves st) + 2
        | Inr (Inr (cfg, a, b, cs, st, v, todo)) \<Rightarrow> 3 * max_depth todo + 1),
   (\<lambda>x. case x of Inr (Inr (cfg, a, b, cs, st, v, todo)) \<Rightarrow> length todo | _ \<Rightarrow> 0)]",
   goal_cases)
  case 1
  then show ?case by simp
next
  case (2 cfg alpha beta st pm)
  then show ?case
    using moves_State_max_depth [of cfg st pm] by (auto simp: lift_def set_possible_moves_def)
next
  case 3
  then show ?case by simp
next
  case 4
  then show ?case by (simp add: max_def)
next
  case 5
  then show ?case by (simp add: max_def)
next
  case 6
  then show ?case by (simp add: max_def)
qed

section \<open>Human input\<close>

text \<open>
  \<^verbatim>\<open>find_relative_position\<close> and \<^verbatim>\<open>check_position\<close> address a segment by its
  coordinates on the lattice of dots, segments and box interiors. \<^verbatim>\<open>check_position\<close>
  mutates \<^verbatim>\<open>state.game\<close> and returns whether the move was valid; the model returns the
  flag together with the state. The human always plays \<^verbatim>\<open>Game.MIN\<close>.
\<close>

definition find_relative_position ::
  "config \<Rightarrow> int \<Rightarrow> int \<Rightarrow> box list list \<Rightarrow> error + string" where
  "find_relative_position cfg line column b =
     (if line = 2 * LINES cfg
      then ebind (board_get b (line div 2 - 1) (column div 2)) (\<lambda>(bits, own).
             if bits AND 2 = 0 then Inr ''horizontal'' else Inr ''non-valid'')
      else if line mod 2 = 0
      then ebind (board_get b (line div 2) (column div 2)) (\<lambda>(bits, own).
             if bits AND 8 = 0 then Inr ''horizontal'' else Inr ''non-valid'')
      else if column = 2 * COLUMNS cfg
      then ebind (board_get b (line div 2) (column div 2 - 1)) (\<lambda>(bits, own).
             if bits AND 4 = 0 then Inr ''vertical'' else Inr ''non-valid'')
      else ebind (board_get b (line div 2) (column div 2)) (\<lambda>(bits, own).
             if bits AND 1 = 0 then Inr ''vertical'' else Inr ''non-valid''))"

definition complete_box_if ::
  "config \<Rightarrow> game \<Rightarrow> int \<Rightarrow> int \<Rightarrow> int \<Rightarrow> string \<Rightarrow> error + game" where
  "complete_box_if cfg g d i j player =
     (if in_scope cfg i j then complete_box cfg g d i j player else Inr g)"

definition check_position :: "config \<Rightarrow> int \<Rightarrow> int \<Rightarrow> state \<Rightarrow> error + bool \<times> state" where
  "check_position cfg line column st =
     (if 0 \<le> line \<and> line < 2 * LINES cfg + 1 \<and> 0 \<le> column \<and> column < 2 * COLUMNS cfg + 1 \<and>
         (line + column) mod 2 = 1
      then ebind (find_relative_position cfg line column (board (game st))) (\<lambda>direction.
             let l = line div 2; c = column div 2
             in if direction = ''horizontal''
                then ebind (complete_box_if cfg (game st) 8 l c (MIN_sym cfg)) (\<lambda>g1.
                     ebind (complete_box_if cfg g1 2 (l - 1) c (MIN_sym cfg)) (\<lambda>g2.
                       Inr (True, set_game g2 st)))
                else if direction = ''vertical''
                then ebind (complete_box_if cfg (game st) 1 l c (MIN_sym cfg)) (\<lambda>g1.
                     ebind (complete_box_if cfg g1 4 l (c - 1) (MIN_sym cfg)) (\<lambda>g2.
                       Inr (True, set_game g2 st)))
                else Inr (False, st))
      else Inr (False, st))"

section \<open>Well-formed boards\<close>

text \<open>
  Auxiliary notions for the proofs: the shape of the board, the code and the owner of a
  box, and closed forms of \<^verbatim>\<open>complete_box\<close> and \<^verbatim>\<open>add_segment\<close> on a board of the right
  shape.
\<close>

definition shape :: "config \<Rightarrow> box list list \<Rightarrow> bool" where
  "shape cfg b \<longleftrightarrow>
     length b = nat (LINES cfg) \<and> (\<forall>row\<in>set b. length row = nat (COLUMNS cfg))"

definition bits_at :: "game \<Rightarrow> int \<Rightarrow> int \<Rightarrow> int" where
  "bits_at g i j = fst (board g ! nat i ! nat j)"

definition owner_at :: "game \<Rightarrow> int \<Rightarrow> int \<Rightarrow> string" where
  "owner_at g i j = snd (board g ! nat i ! nat j)"

definition upd :: "box list list \<Rightarrow> int \<Rightarrow> int \<Rightarrow> box \<Rightarrow> box list list" where
  "upd b i j v = b[nat i := (b ! nat i)[nat j := v]]"

definition placed :: "config \<Rightarrow> game \<Rightarrow> int \<Rightarrow> int \<Rightarrow> int \<Rightarrow> string \<Rightarrow> game" where
  "placed cfg g d i j p =
     (let bits = bits_at g i j + d; full = (bits AND 15 = 15)
      in \<lparr>board = upd (board g) i j (bits, if full then p else owner_at g i j),
          score_min = score_min g + (if full \<and> p = MIN_sym cfg then 1 else 0),
          score_max = score_max g + (if full \<and> p \<noteq> MIN_sym cfg then 1 else 0),
          filled_box = (filled_box g \<or> full),
          last_segment = Some (i, j, p)\<rparr>)"

definition all_boxes :: "config \<Rightarrow> (int \<times> int) list" where
  "all_boxes cfg = List.product [0..LINES cfg - 1] [0..COLUMNS cfg - 1]"

definition owned_boxes :: "config \<Rightarrow> game \<Rightarrow> int" where
  "owned_boxes cfg g = int (length (filter (\<lambda>(i, j). owner_at g i j \<noteq> '' '') (all_boxes cfg)))"

definition box_inv :: "config \<Rightarrow> game \<Rightarrow> bool" where
  "box_inv cfg g \<longleftrightarrow>
     shape cfg (board g) \<and>
     (\<forall>i j. in_scope cfg i j \<longrightarrow>
        0 \<le> bits_at g i j \<and> bits_at g i j \<le> 15 \<and>
        (owner_at g i j \<noteq> '' '' \<longleftrightarrow> bits_at g i j = 15)) \<and>
     0 \<le> score_min g \<and> 0 \<le> score_max g \<and>
     score_min g + score_max g = owned_boxes cfg g \<and>
     (case last_segment g of None \<Rightarrow> True | Some (i, j, p) \<Rightarrow> in_scope cfg i j)"

definition mirrored :: "config \<Rightarrow> game \<Rightarrow> bool" where
  "mirrored cfg g \<longleftrightarrow>
     (\<forall>(d0, d1, d2, d3)\<in>set directions. \<forall>i j.
        in_scope cfg i j \<and> in_scope cfg (i + d1) (j + d2) \<longrightarrow>
        (bits_at g i j AND d0 = 0 \<longleftrightarrow> bits_at g (i + d1) (j + d2) AND d3 = 0))"

definition wf_game :: "config \<Rightarrow> game \<Rightarrow> bool" where
  "wf_game cfg g \<longleftrightarrow> box_inv cfg g \<and> mirrored cfg g"

definition added :: "config \<Rightarrow> game \<Rightarrow> direction \<Rightarrow> int \<Rightarrow> int \<Rightarrow> string \<Rightarrow> game" where
  "added cfg g d i j p =
     (case d of (d0, d1, d2, d3) \<Rightarrow>
        let g1 = placed cfg g d0 i j p
        in if in_scope cfg (i + d1) (j + d2) then placed cfg g1 d3 (i + d1) (j + d2) p else g1)"

text \<open>
  The game states of a run of the program. A placement is a call of \<^verbatim>\<open>add_segment\<close> that
  draws a segment for one of the two players (the move generator and the look-ahead of
  \<^verbatim>\<open>open_boxes_2\<close> make such calls), or an accepted human move through
  \<^verbatim>\<open>check_position\<close>. At the end of every turn \<^verbatim>\<open>run_algorithm\<close> resets \<^verbatim>\<open>filled_box\<close>.
\<close>

inductive placement :: "config \<Rightarrow> game \<Rightarrow> game \<Rightarrow> bool" for cfg :: config where
  computer_move:
    "player = MIN_sym cfg \<or> player = MAX_sym cfg \<Longrightarrow> in_scope cfg i j \<Longrightarrow>
     d \<in> set directions \<Longrightarrow> add_segment cfg g d i j player = Inr (Some g') \<Longrightarrow>
     placement cfg g g'"
| human_move:
    "check_position cfg line column st = Inr (True, st') \<Longrightarrow>
     placement cfg (game st) (game st')"

definition game_step :: "config \<Rightarrow> game \<Rightarrow> game \<Rightarrow> bool" where
  "game_step cfg g g' \<longleftrightarrow> placement cfg g g' \<or> g' = g\<lparr>filled_box := False\<rparr>"

inductive reachable :: "config \<Rightarrow> game \<Rightarrow> bool" for cfg :: config where
  start: "reachable cfg (Game_init cfg)"
| step: "reachable cfg g \<Longrightarrow> game_step cfg g g' \<Longrightarrow> reachable cfg g'"

text \<open>The call of \<^verbatim>\<open>add_segment\<close> that draws the segment at lattice position (line, column).\<close>

definition lattice_call :: "config \<Rightarrow> int \<Rightarrow> int \<Rightarrow> direction \<times> int \<times> int" where
  "lattice_call cfg line column =
     (if line = 2 * LINES cfg then (dir_down, LINES cfg - 1, column div 2)
      else if line mod 2 = 0 then (dir_up, line div 2, column div 2)
      else if column = 2 * COLUMNS cfg then (dir_right, line div 2, COLUMNS cfg - 1)
      else (dir_left, line div 2, column div 2))"

definition on_lattice :: "config \<Rightarrow> int \<Rightarrow> int \<Rightarrow> bool" where
  "on_lattice cfg line column \<longleftrightarrow>
     0 \<le> line \<and> line \<le> 2 * LINES cfg \<and> 0 \<le> column \<and> column \<le> 2 * COLUMNS cfg \<and>
     (odd line \<longleftrightarrow> even column)"

definition score_of :: "config \<Rightarrow> game \<Rightarrow> string \<Rightarrow> int" where
  "score_of cfg g p = (if p = MIN_sym cfg then score_min g else score_max g)"

definition completed :: "game \<Rightarrow> game \<Rightarrow> int" where
  "completed g g' = (score_min g' + score_max g') - (score_min g + score_max g)"

definition cfg12 :: config where
  "cfg12 = \<lparr>LINES = 1, COLUMNS = 2, MIN_sym = ''X'', MAX_sym = ''O'', VAR = 2\<rparr>"

definition game_two_open :: game where
  "game_two_open =
     \<lparr>board = [[(11, '' ''), (14, '' '')]], score_min = 0, score_max = 0,
      filled_box = False, last_segment = Some (0, 0, ''X'')\<rparr>"

definition score_sum :: "game \<Rightarrow> int" where
  "score_sum g = score_min g + score_max g"

definition cfg11 :: config where
  "cfg11 = \<lparr>LINES = 1, COLUMNS = 1, MIN_sym = ''X'', MAX_sym = ''O'', VAR = 2\<rparr>"

definition game_11_closed :: game where
  "game_11_closed =
     \<lparr>board = [[(15, ''O'')]], score_min = 0, score_max = 1, filled_box = True,
      last_segment = Some (0, 0, ''O'')\<rparr>"

definition free_call :: "game \<Rightarrow> direction \<times> int \<times> int \<Rightarrow> bool" where
  "free_call g c = (case c of (d, i, j) \<Rightarrow> bits_at g i j AND fst d = 0)"

definition apply_call :: "config \<Rightarrow> game \<Rightarrow> string \<Rightarrow> direction \<times> int \<times> int \<Rightarrow> game" where
  "apply_call cfg g p c = (case c of (d, i, j) \<Rightarrow> added cfg g d i j p)"

text \<open>
  A segment at lattice position (line, column) is recorded in each box next to it that lies
  on the board: the boxes below (code 8) and above (code 2) a horizontal segment, the boxes
  to the right (code 1) and to the left (code 4) of a vertical one. The segment is drawn
  when one of these boxes records it.
\<close>

definition segment_boxes :: "config \<Rightarrow> int \<Rightarrow> int \<Rightarrow> (int \<times> int \<times> int) list" where
  "segment_boxes cfg line column =
     filter (\<lambda>(i, j, c). in_scope cfg i j)
       (if even line
        then [(line div 2, column div 2, 8), (line div 2 - 1, column div 2, 2)]
        else [(line div 2, column div 2, 1), (line div 2, column div 2 - 1, 4)])"

definition segment_drawn :: "config \<Rightarrow> game \<Rightarrow> int \<Rightarrow> int \<Rightarrow> bool" where
  "segment_drawn cfg g line column \<longleftrightarrow>
     (\<exists>(i, j, c)\<in>set (segment_boxes cfg line column). bits_at g i j AND c \<noteq> 0)"

definition game_three_sides :: game where
  "game_three_sides =
     \<lparr>board = [[(11, '' ''), (0, '' '')]], score_min = 0, score_max = 0,
      filled_box = False, last_segment = Some (0, 0, ''X'')\<rparr>"

definition game_left_closed :: game where
  "game_left_closed =
     \<lparr>board = [[(15, ''O''), (1, '' '')]], score_min = 0, score_max = 1,
      filled_box = True, last_segment = Some (0, 0, ''O'')\<rparr>"

text \<open>
  For every child of a search state: the number of boxes its move completed, and the
  player to move in it.
\<close>

definition child_turns :: "config \<Rightarrow> state \<Rightarrow> (int \<times> string) list" where
  "child_turns cfg st =
     (case moves_State cfg st of
        Inl e \<Rightarrow> []
      | Inr kids \<Rightarrow> map (\<lambda>k. (completed (game st) (game k), current_player k)) kids)"

definition children :: "config \<Rightarrow> state \<Rightarrow> state list" where
  "children cfg st = (case moves_State cfg st of Inl e \<Rightarrow> [] | Inr kids \<Rightarrow> kids)"

text \<open>The scores of the grandchildren of a search result (\<open>None\<close>: never visited).\<close>

definition visited_scores :: "state result \<Rightarrow> int option list list" where
  "visited_scores r =
     (case r of
        Some (Inr st) \<Rightarrow> map (\<lambda>k. map score (possible_moves k)) (possible_moves st)
      | _ \<Rightarrow> [])"

text \<open>The number of segment bits that are not set, over all boxes of the board.\<close>

definition free_count :: "int \<Rightarrow> nat" where
  "free_count b = length (filter (\<lambda>c. b AND c = 0) [8, 1, 4, 2])"

definition free_bits :: "config \<Rightarrow> game \<Rightarrow> nat" where
  "free_bits cfg g = sum_list (map (\<lambda>(i, j). free_count (bits_at g i j)) (all_boxes cfg))"

definition game_12_first :: game where
  "game_12_first =
     \<lparr>board = [[(8, '' ''), (0, '' '')]], score_min = 0, score_max = 0, filled_box = False,
      last_segment = Some (0, 0, ''X'')\<rparr>"

text \<open>What a search call returns when it returns normally.\<close>

definition returned :: "'a result \<Rightarrow> 'a option" where
  "returned r = (case r of Some (Inr x) \<Rightarrow> Some x | _ \<Rightarrow> None)"

text \<open>The outcome of a search: the score and the game of the chosen child.\<close>

definition chosen :: "state result \<Rightarrow> (int option \<times> game option) option" where
  "chosen r = map_option (\<lambda>st. (score st, map_option game (next_state st))) (returned r)"

text \<open>The child that the loop of \<^verbatim>\<open>alpha_beta_state\<close> has recorded after a list of scored children.\<close>

fun pick_max :: "bound \<Rightarrow> state option \<Rightarrow> state list \<Rightarrow> state option" where
  "pick_max cs nx [] = nx"
| "pick_max cs nx (m # ms) =
     (case score m of
        None \<Rightarrow> nx
      | Some s \<Rightarrow> if bound_less cs s then pick_max (Val s) (Some m) ms else pick_max cs nx ms)"

fun pick_min :: "bound \<Rightarrow> state option \<Rightarrow> state list \<Rightarrow> state option" where
  "pick_min cs nx [] = nx"
| "pick_min cs nx (m # ms) =
     (case score m of
        None \<Rightarrow> nx
      | Some s \<Rightarrow> if bound_greater cs s then pick_min (Val s) (Some m) ms else pick_min cs nx ms)"

definition pick :: "config \<Rightarrow> state \<Rightarrow> bound \<Rightarrow> state list \<Rightarrow> state option" where
  "pick cfg st cs ms =
     (if current_player st = MAX_sym cfg then pick_max cs (next_state st) ms
      else pick_min cs (next_state st) ms)"

text \<open>
  All leaves of the search tree below a state are evaluated without error to a score in
  the window [lo, hi], and every inner node has children.
\<close>

function leaves_within :: "config \<Rightarrow> int \<Rightarrow> int \<Rightarrow> state \<Rightarrow> bool" where
  "leaves_within cfg lo hi st =
     (if depth st = 0 \<or> truthy (final cfg (game st))
      then (case estimate_score cfg (game st) of
              Some (Inr v) \<Rightarrow> lo \<le> v \<and> v \<le> hi
            | _ \<Rightarrow> False)
      else (case moves_State cfg st of
              Inl e \<Rightarrow> False
            | Inr pm \<Rightarrow> pm \<noteq> [] \<and> (\<forall>c\<in>set pm. leaves_within cfg lo hi c)))"
  by pat_completeness auto
termination
proof (relation "measure (\<lambda>(cfg, lo, hi, st). depth st)", goal_cases)
  case 1
  show ?case by simp
next
  case (2 cfg lo hi st pm c)
  then show ?case using moves_State_depth [of cfg st pm c] by simp
qed

declare leaves_within.simps [simp del]

text \<open>
  The segments of the grid are the lattice positions with exactly one odd coordinate. The
  call \<open>(d, i, j)\<close> of \<^verbatim>\<open>add_segment\<close> draws the segment at the lattice position
  \<open>call_segment (d, i, j)\<close>.
\<close>

definition segments :: "config \<Rightarrow> (int \<times> int) list" where
  "segments cfg =
     filter (\<lambda>(line, column). odd line \<longleftrightarrow> even column)
       (List.product [0..2 * LINES cfg] [0..2 * COLUMNS cfg])"

definition total_segments :: "config \<Rightarrow> int" where
  "total_segments cfg = int (length (segments cfg))"

definition drawn_segments :: "config \<Rightarrow> game \<Rightarrow> int" where
  "drawn_segments cfg g =
     int (length (filter (\<lambda>(line, column). segment_drawn cfg g line column) (segments cfg)))"

definition call_segment :: "direction \<times> int \<times> int \<Rightarrow> int \<times> int" where
  "call_segment c = (case c of ((d0, d1, d2, d3), i, j) \<Rightarrow> (2 * i + 1 + d1, 2 * j + 1 + d2))"

lemma py_index_in_range: "0 \<le> i \<Longrightarrow> i < int (length xs) \<Longrightarrow> py_index xs i = Inr (nat i)"
  by (simp add: py_index_def)

lemma py_get_in_range: "0 \<le> i \<Longrightarrow> i < int (length xs) \<Longrightarrow> py_get xs i = Inr (xs ! nat i)"
  by (simp add: py_get_def py_index_in_range ebind_def)

lemma py_set_in_range:
  "0 \<le> i \<Longrightarrow> i < int (length xs) \<Longrightarrow> py_set xs i v = Inr (xs[nat i := v])"
  by (simp add: py_set_def py_index_in_range ebind_def)

lemma shape_row: "shape cfg b \<Longrightarrow> in_scope cfg i j \<Longrightarrow> length (b ! nat i) = nat (COLUMNS cfg)"
  by (simp add: shape_def in_scope_def)

lemma board_get_in_scope:
  assumes "shape cfg b" and "in_scope cfg i j"
  shows "board_get b i j = Inr (b ! nat i ! nat j)"
proof -
  have "i < int (length b)" "0 \<le> i" "0 \<le> j" "j < int (length (b ! nat i))"
    using assms shape_row [OF assms] by (auto simp: shape_def in_scope_def)
  then show ?thesis by (simp add: board_get_def py_get_in_range ebind_def)
qed

lemma board_set_in_scope:
  assumes "shape cfg b" and "in_scope cfg i j"
  shows "board_set b i j v = Inr (upd b i j v)"
proof -
  have "i < int (length b)" "0 \<le> i" "0 \<le> j" "j < int (length (b ! nat i))"
    using assms shape_row [OF assms] by (auto simp: shape_def in_scope_def)
  then show ?thesis
    by (simp add: board_set_def py_get_in_range py_set_in_range ebind_def upd_def)
qed

lemma shape_upd:
  assumes "shape cfg b"
  shows "shape cfg (upd b i j v)"
proof (cases "nat i < length b")
  case True
  then have "length (b ! nat i) = nat (COLUMNS cfg)"
    using assms by (simp add: shape_def)
  moreover have "set (upd b i j v) \<subseteq> insert ((b ! nat i)[nat j := v]) (set b)"
    unfolding upd_def by (rule set_update_subset_insert)
  ultimately show ?thesis using assms by (auto simp: shape_def upd_def)
next
  case False
  then have "b[nat i := (b ! nat i)[nat j := v]] = b" by (simp add: list_update_beyond)
  then show ?thesis using assms by (simp add: upd_def)
qed

lemma upd_nth:
  assumes "shape cfg b" and "in_scope cfg i j" and "in_scope cfg i' j'"
  shows "upd b i j v ! nat i' ! nat j' = (if i' = i \<and> j' = j then v else b ! nat i' ! nat j')"
proof -
  have r: "nat i < length b" "nat j < length (b ! nat i)" "0 \<le> i" "0 \<le> j" "0 \<le> i'" "0 \<le> j'"
    using assms shape_row [OF assms(1,2)] by (auto simp: shape_def in_scope_def)
  show ?thesis
  proof (cases "i' = i")
    case True
    then show ?thesis using r by (auto simp: upd_def nat_eq_iff)
  next
    case False
    then have "nat i' \<noteq> nat i" using r by (simp add: nat_eq_iff)
    then show ?thesis using False by (simp add: upd_def)
  qed
qed

lemma upd_upd:
  assumes "shape cfg b" and "in_scope cfg i j"
  shows "upd (upd b i j v) i j w = upd b i j w"
proof -
  have r: "nat i < length b"
    using assms by (auto simp: shape_def in_scope_def)
  then show ?thesis by (simp add: upd_def)
qed

lemma complete_box_in_scope:
  assumes "shape cfg (board g)" and "in_scope cfg i j"
  shows "complete_box cfg g d i j p = Inr (placed cfg g d i j p)"
proof -
  obtain bits own where bo: "board g ! nat i ! nat j = (bits, own)" by (cases "board g ! nat i ! nat j")
  have s1: "shape cfg (upd (board g) i j (bits + d, own))" using assms(1) by (rule shape_upd)
  show ?thesis
    using bo
    by (simp add: complete_box_def board_get_in_scope [OF assms] board_set_in_scope [OF assms]
        board_set_in_scope [OF s1 assms(2)] upd_upd [OF assms] ebind_def placed_def Let_def
        bits_at_def owner_at_def)
qed

lemma add_code_or:
  fixes b d :: int
  assumes "b AND d = 0"
  shows "b + d = b OR d"
  using assms by (rule disjunctive_add_eq_or)

lemma add_code_and:
  fixes b c d :: int
  assumes "b AND d = 0" and "c \<in> {1, 2, 4, 8}" and "d \<in> {1, 2, 4, 8}"
  shows "(b + d) AND c = (if c = d then d else b AND c)"
proof -
  have "(b + d) AND c = (b AND c) OR (d AND c)"
    by (simp add: add_code_or [OF assms(1)] bit.conj_disj_distrib2)
  moreover have "d AND c = (if c = d then d else 0)"
    using assms(2,3) by auto
  ultimately show ?thesis using assms(1) by (auto simp: and.commute)
qed

lemma add_code_range:
  fixes b d :: int
  assumes "0 \<le> b" and "b \<le> 15" and "b AND d = 0" and "d \<in> {1, 2, 4, 8}"
  shows "0 \<le> b + d \<and> b + d \<le> 15"
proof -
  have "b OR d < 2 ^ 4"
    using assms by (intro OR_upper) auto
  moreover have "0 \<le> d" using assms(4) by auto
  ultimately show ?thesis using assms(1) by (simp add: add_code_or [OF assms(3)])
qed

lemma full_iff:
  fixes b :: int
  assumes "0 \<le> b" and "b \<le> 15"
  shows "b AND 15 = 15 \<longleftrightarrow> b = 15"
proof
  assume "b AND 15 = 15"
  moreover have "b AND 15 \<le> b" using assms(1) by (rule AND_upper1)
  ultimately show "b = 15" using assms(2) by simp
next
  assume "b = 15"
  then show "b AND 15 = 15" by simp
qed

lemma small_cases:
  fixes b :: int
  assumes "0 \<le> b" and "b \<le> 15"
  shows "b \<in> {0, 1, 2, 3, 4, 5, 6, 7, 8, 9, 10, 11, 12, 13, 14, 15}"
  using assms by simp arith

lemma full_codes:
  fixes b :: int
  assumes "0 \<le> b" and "b \<le> 15"
  shows "b = 15 \<longleftrightarrow> b AND 8 \<noteq> 0 \<and> b AND 1 \<noteq> 0 \<and> b AND 4 \<noteq> 0 \<and> b AND 2 \<noteq> 0"
  using small_cases [OF assms] by auto

lemma set_all_boxes: "set (all_boxes cfg) = {(i, j). in_scope cfg i j}"
  by (auto simp: all_boxes_def in_scope_def)

lemma distinct_all_boxes: "distinct (all_boxes cfg)"
  by (simp add: all_boxes_def distinct_product)

lemma count_flip:
  assumes "distinct xs" and "x \<in> set xs" and "\<not> P x" and "Q x"
    and "\<forall>y\<in>set xs. y \<noteq> x \<longrightarrow> Q y = P y"
  shows "length (filter Q xs) = Suc (length (filter P xs))"
  using assms
proof (induction xs)
  case Nil
  then show ?case by simp
next
  case (Cons a xs)
  show ?case
  proof (cases "a = x")
    case True
    then have "x \<notin> set xs" using Cons.prems(1) by simp
    then have "filter Q xs = filter P xs"
      using Cons.prems(5) by (intro filter_cong) auto
    then show ?thesis using True Cons.prems(3,4) by simp
  next
    case False
    then have "length (filter Q xs) = Suc (length (filter P xs))"
      using Cons by auto
    moreover have "Q a = P a" using False Cons.prems(5) by simp
    ultimately show ?thesis by simp
  qed
qed

lemma shape_placed: "shape cfg (board g) \<Longrightarrow> shape cfg (board (placed cfg g d i j p))"
  by (simp add: placed_def Let_def shape_upd)

lemma bits_at_placed:
  assumes "shape cfg (board g)" and "in_scope cfg i j" and "in_scope cfg i' j'"
  shows "bits_at (placed cfg g d i j p) i' j' =
           (if i' = i \<and> j' = j then bits_at g i j + d else bits_at g i' j')"
  by (simp add: placed_def Let_def bits_at_def upd_nth [OF assms])

lemma owner_at_placed:
  assumes "shape cfg (board g)" and "in_scope cfg i j" and "in_scope cfg i' j'"
  shows "owner_at (placed cfg g d i j p) i' j' =
           (if i' = i \<and> j' = j \<and> (bits_at g i j + d) AND 15 = 15 then p else owner_at g i' j')"
  by (simp add: placed_def Let_def owner_at_def upd_nth [OF assms])

lemma scores_placed:
  "score_min (placed cfg g d i j p) + score_max (placed cfg g d i j p) =
     score_min g + score_max g + (if (bits_at g i j + d) AND 15 = 15 then 1 else 0)"
  "score_min g \<le> score_min (placed cfg g d i j p)"
  "score_max g \<le> score_max (placed cfg g d i j p)"
  by (simp_all add: placed_def Let_def)

lemma last_segment_placed [simp]: "last_segment (placed cfg g d i j p) = Some (i, j, p)"
  by (simp add: placed_def Let_def)

lemma filled_box_placed:
  "filled_box (placed cfg g d i j p) \<longleftrightarrow> filled_box g \<or> (bits_at g i j + d) AND 15 = 15"
  by (simp add: placed_def Let_def)

lemma owned_boxes_placed:
  assumes inv: "box_inv cfg g" and sc: "in_scope cfg i j" and d: "d \<in> {1, 2, 4, 8}"
    and free: "bits_at g i j AND d = 0" and p: "p \<noteq> '' ''"
  shows "owned_boxes cfg (placed cfg g d i j p) =
           owned_boxes cfg g + (if (bits_at g i j + d) AND 15 = 15 then 1 else 0)"
proof -
  let ?g = "placed cfg g d i j p"
  let ?P = "\<lambda>(i, j). owner_at g i j \<noteq> '' ''"
  let ?Q = "\<lambda>(i, j). owner_at ?g i j \<noteq> '' ''"
  have sh: "shape cfg (board g)" using inv by (simp add: box_inv_def)
  have rng: "0 \<le> bits_at g i j" "bits_at g i j \<le> 15"
    and own: "owner_at g i j \<noteq> '' '' \<longleftrightarrow> bits_at g i j = 15"
    using inv sc by (auto simp: box_inv_def)
  have "bits_at g i j \<noteq> 15" using free d by auto
  then have unowned: "\<not> ?P (i, j)" using own by simp
  show ?thesis
  proof (cases "(bits_at g i j + d) AND 15 = 15")
    case True
    have "length (filter ?Q (all_boxes cfg)) = Suc (length (filter ?P (all_boxes cfg)))"
    proof (rule count_flip [where x = "(i, j)"])
      show "distinct (all_boxes cfg)" by (rule distinct_all_boxes)
      show "(i, j) \<in> set (all_boxes cfg)" using sc by (simp add: set_all_boxes)
      show "\<not> ?P (i, j)" by (rule unowned)
      show "?Q (i, j)" using True p by (simp add: owner_at_placed [OF sh sc sc])
      show "\<forall>y\<in>set (all_boxes cfg). y \<noteq> (i, j) \<longrightarrow> ?Q y = ?P y"
        using sh sc by (auto simp: set_all_boxes owner_at_placed)
    qed
    then show ?thesis using True by (simp add: owned_boxes_def)
  next
    case False
    have "filter ?Q (all_boxes cfg) = filter ?P (all_boxes cfg)"
      using sh sc False by (intro filter_cong) (auto simp: set_all_boxes owner_at_placed)
    then show ?thesis using False by (simp add: owned_boxes_def)
  qed
qed

lemma box_inv_placed:
  assumes inv: "box_inv cfg g" and sc: "in_scope cfg i j" and d: "d \<in> {1, 2, 4, 8}"
    and free: "bits_at g i j AND d = 0" and p: "p \<noteq> '' ''"
  shows "box_inv cfg (placed cfg g d i j p)"
proof -
  let ?g = "placed cfg g d i j p"
  have sh: "shape cfg (board g)" using inv by (simp add: box_inv_def)
  have rng: "0 \<le> bits_at g i j" "bits_at g i j \<le> 15"
    using inv sc by (auto simp: box_inv_def)
  have rng': "0 \<le> bits_at g i j + d \<and> bits_at g i j + d \<le> 15"
    using rng free d by (intro add_code_range) auto
  have "bits_at g i j \<noteq> 15" using free d by auto
  then have unowned: "owner_at g i j = '' ''" using inv sc by (auto simp: box_inv_def)
  have boxes: "0 \<le> bits_at ?g i' j' \<and> bits_at ?g i' j' \<le> 15 \<and>
      (owner_at ?g i' j' \<noteq> '' '' \<longleftrightarrow> bits_at ?g i' j' = 15)" if "in_scope cfg i' j'" for i' j'
  proof (cases "i' = i \<and> j' = j")
    case True
    then show ?thesis
      using rng' p unowned full_iff [of "bits_at g i j + d"]
      by (simp add: bits_at_placed [OF sh sc sc] owner_at_placed [OF sh sc sc])
  next
    case False
    then show ?thesis
      using inv that by (auto simp: bits_at_placed [OF sh sc that] owner_at_placed [OF sh sc that] box_inv_def)
  qed
  have "score_min ?g + score_max ?g = owned_boxes cfg ?g"
    using inv by (simp add: scores_placed(1) owned_boxes_placed [OF assms] box_inv_def)
  moreover have "0 \<le> score_min ?g" "0 \<le> score_max ?g"
    using inv scores_placed(2,3) [of g cfg d i j p] by (auto simp: box_inv_def)
  ultimately show ?thesis
    using boxes sc shape_placed [OF sh] by (simp add: box_inv_def)
qed

lemma add_segment_in_scope:
  assumes "shape cfg (board g)" and "in_scope cfg i j"
  shows "add_segment cfg g d i j p =
           Inr (if bits_at g i j AND fst d = 0 then Some (added cfg g d i j p) else None)"
proof -
  obtain d0 d1 d2 d3 where d: "d = (d0, d1, d2, d3)" by (cases d)
  obtain bits own where bo: "board g ! nat i ! nat j = (bits, own)"
    by (cases "board g ! nat i ! nat j")
  have sh1: "shape cfg (board (placed cfg g d0 i j p))" using assms(1) by (rule shape_placed)
  show ?thesis
    using bo
    by (simp add: d add_segment_def added_def board_get_in_scope [OF assms] ebind_def
        complete_box_in_scope [OF assms] complete_box_in_scope [OF sh1] bits_at_def Let_def)
qed

lemma direction_cases:
  assumes "(d0, d1, d2, d3) \<in> set directions"
  shows "(d0 = 8 \<and> d1 = -1 \<and> d2 = 0 \<and> d3 = 2) \<or> (d0 = 1 \<and> d1 = 0 \<and> d2 = -1 \<and> d3 = 4) \<or>
         (d0 = 4 \<and> d1 = 0 \<and> d2 = 1 \<and> d3 = 1) \<or> (d0 = 2 \<and> d1 = 1 \<and> d2 = 0 \<and> d3 = 8)"
  using assms by (auto simp: directions_def dir_up_def dir_left_def dir_right_def dir_down_def)

lemma direction_codes:
  assumes "(d0, d1, d2, d3) \<in> set directions"
  shows "d0 \<in> {1, 2, 4, 8}" and "d3 \<in> {1, 2, 4, 8}" and "d1 \<noteq> 0 \<or> d2 \<noteq> 0"
  using direction_cases [OF assms] by auto

lemma direction_opposite:
  assumes "(d0, d1, d2, d3) \<in> set directions"
  shows "(d3, - d1, - d2, d0) \<in> set directions"
  using direction_cases [OF assms]
  by (auto simp: directions_def dir_up_def dir_left_def dir_right_def dir_down_def)

lemma mirroredD:
  assumes "mirrored cfg g" and "(d0, d1, d2, d3) \<in> set directions"
    and "in_scope cfg i j" and "in_scope cfg (i + d1) (j + d2)"
  shows "bits_at g i j AND d0 = 0 \<longleftrightarrow> bits_at g (i + d1) (j + d2) AND d3 = 0"
  using assms unfolding mirrored_def by blast

lemma bits_at_added:
  assumes sh: "shape cfg (board g)" and sc: "in_scope cfg i j" and xy: "in_scope cfg x y"
    and d: "(d0, d1, d2, d3) \<in> set directions"
  shows "bits_at (added cfg g (d0, d1, d2, d3) i j p) x y =
           bits_at g x y + (if x = i \<and> y = j then d0 else 0) +
           (if in_scope cfg (i + d1) (j + d2) \<and> x = i + d1 \<and> y = j + d2 then d3 else 0)"
proof -
  have sh1: "shape cfg (board (placed cfg g d0 i j p))" using sh by (rule shape_placed)
  have ne: "\<not> (i + d1 = i \<and> j + d2 = j)" using direction_codes(3) [OF d] by auto
  show ?thesis
  proof (cases "in_scope cfg (i + d1) (j + d2)")
    case True
    show ?thesis
      using ne True
      by (auto simp: added_def Let_def bits_at_placed [OF sh1 True xy] bits_at_placed [OF sh sc xy]
          bits_at_placed [OF sh sc True])
  next
    case False
    then show ?thesis by (simp add: added_def Let_def bits_at_placed [OF sh sc xy])
  qed
qed

lemma free_added:
  assumes wf: "wf_game cfg g" and sc: "in_scope cfg i j" and xy: "in_scope cfg x y"
    and d: "(d0, d1, d2, d3) \<in> set directions" and free: "bits_at g i j AND d0 = 0"
    and c: "c \<in> {1, 2, 4, 8}"
  shows "bits_at (added cfg g (d0, d1, d2, d3) i j p) x y AND c = 0 \<longleftrightarrow>
           bits_at g x y AND c = 0 \<and> \<not> (x = i \<and> y = j \<and> c = d0) \<and>
           \<not> (in_scope cfg (i + d1) (j + d2) \<and> x = i + d1 \<and> y = j + d2 \<and> c = d3)"
proof -
  have sh: "shape cfg (board g)" using wf by (simp add: wf_game_def box_inv_def)
  have mir: "mirrored cfg g" using wf by (simp add: wf_game_def)
  have ne: "\<not> (i + d1 = i \<and> j + d2 = j)" using direction_codes(3) [OF d] by auto
  note codes = direction_codes(1,2) [OF d]
  have nz: "d0 \<noteq> 0" "d3 \<noteq> 0" using codes by auto
  consider (here) "x = i \<and> y = j"
    | (there) "in_scope cfg (i + d1) (j + d2) \<and> x = i + d1 \<and> y = j + d2"
    | (other) "\<not> (x = i \<and> y = j) \<and> \<not> (in_scope cfg (i + d1) (j + d2) \<and> x = i + d1 \<and> y = j + d2)"
    by blast
  then show ?thesis
  proof cases
    case here
    then have eq: "x = i" "y = j" by simp_all
    show ?thesis
      unfolding eq using ne nz add_code_and [OF free c codes(1)]
      by (auto simp: bits_at_added [OF sh sc sc d])
  next
    case there
    then have eq: "x = i + d1" "y = j + d2" and nb: "in_scope cfg (i + d1) (j + d2)"
      by simp_all
    have free': "bits_at g (i + d1) (j + d2) AND d3 = 0"
      using mirroredD [OF mir d sc nb] free by simp
    show ?thesis
      unfolding eq using nb ne nz add_code_and [OF free' c codes(2)]
      by (auto simp: bits_at_added [OF sh sc nb d])
  next
    case other
    then show ?thesis by (auto simp: bits_at_added [OF sh sc xy d])
  qed
qed

lemma box_inv_added:
  assumes wf: "wf_game cfg g" and sc: "in_scope cfg i j"
    and d: "(d0, d1, d2, d3) \<in> set directions" and free: "bits_at g i j AND d0 = 0"
    and p: "p \<noteq> '' ''"
  shows "box_inv cfg (added cfg g (d0, d1, d2, d3) i j p)"
proof -
  have inv: "box_inv cfg g" and mir: "mirrored cfg g" using wf by (simp_all add: wf_game_def)
  have sh: "shape cfg (board g)" using inv by (simp add: box_inv_def)
  note codes = direction_codes(1,2) [OF d]
  have ne: "\<not> (i + d1 = i \<and> j + d2 = j)" using direction_codes(3) [OF d] by auto
  have inv1: "box_inv cfg (placed cfg g d0 i j p)"
    using inv sc codes(1) free p by (rule box_inv_placed)
  show ?thesis
  proof (cases "in_scope cfg (i + d1) (j + d2)")
    case True
    have "bits_at g (i + d1) (j + d2) AND d3 = 0"
      using mirroredD [OF mir d sc True] free by simp
    then have free1: "bits_at (placed cfg g d0 i j p) (i + d1) (j + d2) AND d3 = 0"
      using ne by (auto simp: bits_at_placed [OF sh sc True])
    have "box_inv cfg (placed cfg (placed cfg g d0 i j p) d3 (i + d1) (j + d2) p)"
      using inv1 True codes(2) free1 p by (rule box_inv_placed)
    then show ?thesis using True by (simp add: added_def Let_def)
  next
    case False
    then show ?thesis using inv1 by (simp add: added_def Let_def)
  qed
qed

lemma mirrored_added:
  assumes wf: "wf_game cfg g" and sc: "in_scope cfg i j"
    and d: "(d0, d1, d2, d3) \<in> set directions" and free: "bits_at g i j AND d0 = 0"
  shows "mirrored cfg (added cfg g (d0, d1, d2, d3) i j p)"
  unfolding mirrored_def
proof (intro ballI allI impI, clarify)
  fix e0 e1 e2 e3 x y
  assume e: "(e0, e1, e2, e3) \<in> set directions"
    and xy: "in_scope cfg x y" and xy': "in_scope cfg (x + e1) (y + e2)"
  have mir: "mirrored cfg g" using wf by (simp add: wf_game_def)
  note ce = direction_codes(1,2) [OF e]
  have old: "bits_at g x y AND e0 = 0 \<longleftrightarrow> bits_at g (x + e1) (y + e2) AND e3 = 0"
    using mir e xy xy' by (rule mirroredD)
  have here: "(x = i \<and> y = j \<and> e0 = d0) \<longleftrightarrow>
      (in_scope cfg (i + d1) (j + d2) \<and> x + e1 = i + d1 \<and> y + e2 = j + d2 \<and> e3 = d3)"
    using direction_cases [OF d] direction_cases [OF e] xy' by auto
  have there: "(in_scope cfg (i + d1) (j + d2) \<and> x = i + d1 \<and> y = j + d2 \<and> e0 = d3) \<longleftrightarrow>
      (x + e1 = i \<and> y + e2 = j \<and> e3 = d0)"
    using direction_cases [OF d] direction_cases [OF e] xy by auto
  show "bits_at (added cfg g (d0, d1, d2, d3) i j p) x y AND e0 = 0 \<longleftrightarrow>
        bits_at (added cfg g (d0, d1, d2, d3) i j p) (x + e1) (y + e2) AND e3 = 0"
    unfolding free_added [OF wf sc xy d free ce(1)] free_added [OF wf sc xy' d free ce(2)] old
    using here there by blast
qed

lemma wf_game_added:
  assumes "wf_game cfg g" and "in_scope cfg i j"
    and "(d0, d1, d2, d3) \<in> set directions" and "bits_at g i j AND d0 = 0" and "p \<noteq> '' ''"
  shows "wf_game cfg (added cfg g (d0, d1, d2, d3) i j p)"
  using box_inv_added [OF assms] mirrored_added [OF assms(1-4)] by (simp add: wf_game_def)

section \<open>Reachable game states\<close>

lemma lattice_call_in_scope:
  assumes "on_lattice cfg line column" and "lattice_call cfg line column = (d, i, j)"
    and "1 \<le> LINES cfg" and "1 \<le> COLUMNS cfg"
  shows "in_scope cfg i j" and "d \<in> set directions"
proof -
  have r: "0 \<le> line" "line \<le> 2 * LINES cfg" "0 \<le> column" "column \<le> 2 * COLUMNS cfg"
    "odd line \<longleftrightarrow> even column"
    using assms(1) by (auto simp: on_lattice_def)
  show "d \<in> set directions"
    using assms(2) by (auto simp: lattice_call_def directions_def split: if_splits)
  show "in_scope cfg i j"
  proof (cases "line mod 2 = 0")
    case True
    then have "odd column" using r(5) by presburger
    then have "column div 2 < COLUMNS cfg" "0 \<le> column div 2" using r(3,4) by presburger+
    moreover have "line \<noteq> 2 * LINES cfg \<Longrightarrow> line div 2 < LINES cfg" using r(2) True by presburger
    moreover have "0 \<le> line div 2" using r(1) by presburger
    moreover have "0 \<le> LINES cfg - 1" using assms(3) by simp
    ultimately show ?thesis
      using assms(2) True r(2) by (auto simp: lattice_call_def in_scope_def split: if_splits)
  next
    case False
    then have ev: "even column" "odd line" using r(5) by presburger+
    have "line div 2 < LINES cfg" "0 \<le> line div 2" using ev(2) r(1,2) by presburger+
    moreover have "column \<noteq> 2 * COLUMNS cfg \<Longrightarrow> column div 2 < COLUMNS cfg"
      using r(4) ev(1) by presburger
    moreover have "0 \<le> column div 2" using r(3) by presburger
    moreover have "0 \<le> COLUMNS cfg - 1" using assms(4) by simp
    ultimately show ?thesis
      using assms(2) False by (auto simp: lattice_call_def in_scope_def split: if_splits)
  qed
qed

lemma on_lattice_iff:
  "0 \<le> line \<and> line < 2 * LINES cfg + 1 \<and> 0 \<le> column \<and> column < 2 * COLUMNS cfg + 1 \<and>
     (line + column) mod 2 = 1 \<longleftrightarrow> on_lattice cfg line column"
  unfolding on_lattice_def by presburger

lemma check_position_closed:
  assumes sh: "shape cfg (board (game st))" and dims: "1 \<le> LINES cfg" "1 \<le> COLUMNS cfg"
  shows "check_position cfg line column st =
           Inr (if on_lattice cfg line column
                then (case lattice_call cfg line column of (d, i, j) \<Rightarrow>
                        if bits_at (game st) i j AND fst d = 0
                        then (True, set_game (added cfg (game st) d i j (MIN_sym cfg)) st)
                        else (False, st))
                else (False, st))"
proof (cases "on_lattice cfg line column")
  case False
  then show ?thesis
    unfolding check_position_def on_lattice_iff by simp
next
  case True
  obtain d i j where call: "lattice_call cfg line column = (d, i, j)"
    by (cases "lattice_call cfg line column")
  have sc: "in_scope cfg i j" using True call dims by (rule lattice_call_in_scope)
  let ?g = "game st"
  let ?l = "line div 2" and ?c = "column div 2"
  have r: "0 \<le> line" "line \<le> 2 * LINES cfg" "0 \<le> column" "column \<le> 2 * COLUMNS cfg"
    "odd line \<longleftrightarrow> even column"
    using True by (auto simp: on_lattice_def)
  obtain bits own where bo: "board ?g ! nat i ! nat j = (bits, own)"
    by (cases "board ?g ! nat i ! nat j")
  have bits: "bits_at ?g i j = bits" using bo by (simp add: bits_at_def)
  have get: "board_get (board ?g) i j = Inr (bits, own)"
    using board_get_in_scope [OF sh sc] bo by simp
  have cb: "complete_box cfg ?g e i j p = Inr (placed cfg ?g e i j p)" for e p
    using sh sc by (rule complete_box_in_scope)
  have sh1: "shape cfg (board (placed cfg ?g e i j p))" for e p
    using sh by (rule shape_placed)
  consider (bottom) "line = 2 * LINES cfg"
    | (horizontal) "line \<noteq> 2 * LINES cfg" "line mod 2 = 0"
    | (right) "line mod 2 \<noteq> 0" "column = 2 * COLUMNS cfg"
    | (vertical) "line mod 2 \<noteq> 0" "column \<noteq> 2 * COLUMNS cfg"
    by blast
  then show ?thesis
  proof cases
    case bottom
    then have c: "d = dir_down" "line div 2 = i + 1" "column div 2 = j"
      using call by (auto simp: lattice_call_def)
    have frp: "find_relative_position cfg line column (board ?g) =
        Inr (if bits AND 2 = 0 then ''horizontal'' else ''non-valid'')"
      using bottom get c by (simp add: find_relative_position_def ebind_def)
    have out: "\<not> in_scope cfg (i + 1) j"
      using c bottom by (simp add: in_scope_def)
    show ?thesis
      using True out sc bits
      unfolding check_position_def on_lattice_iff call frp c(2,3)
      by (simp add: ebind_def Let_def complete_box_if_def cb added_def c(1) dir_down_def)
  next
    case horizontal
    then have c: "d = dir_up" "i = ?l" "j = ?c"
      using call by (auto simp: lattice_call_def)
    have frp: "find_relative_position cfg line column (board ?g) =
        Inr (if bits AND 8 = 0 then ''horizontal'' else ''non-valid'')"
      using horizontal get c by (simp add: find_relative_position_def ebind_def)
    have cb2: "in_scope cfg (i - 1) j \<Longrightarrow>
        complete_box cfg (placed cfg ?g 8 i j p) 2 (i - 1) j p =
        Inr (placed cfg (placed cfg ?g 8 i j p) 2 (i - 1) j p)" for p
      using sh1 by (rule complete_box_in_scope)
    show ?thesis
      using True sc bits cb2
      unfolding check_position_def on_lattice_iff call frp
      by (simp add: ebind_def Let_def complete_box_if_def c(2,3) [symmetric] cb added_def
          c(1) dir_up_def)
  next
    case right
    have ne: "line \<noteq> 2 * LINES cfg" using right(1) by presburger
    have c: "d = dir_right" "line div 2 = i" "column div 2 = j + 1"
      using call right ne by (auto simp: lattice_call_def)
    have frp: "find_relative_position cfg line column (board ?g) =
        Inr (if bits AND 4 = 0 then ''vertical'' else ''non-valid'')"
      using right ne get c by (simp add: find_relative_position_def ebind_def)
    have out: "\<not> in_scope cfg i (j + 1)"
      using c right by (simp add: in_scope_def)
    show ?thesis
      using True out sc bits
      unfolding check_position_def on_lattice_iff call frp c(2,3)
      by (simp add: ebind_def Let_def complete_box_if_def cb added_def c(1) dir_right_def)
  next
    case vertical
    have ne: "line \<noteq> 2 * LINES cfg" using vertical(1) by presburger
    have c: "d = dir_left" "i = ?l" "j = ?c"
      using call vertical ne by (auto simp: lattice_call_def)
    have frp: "find_relative_position cfg line column (board ?g) =
        Inr (if bits AND 1 = 0 then ''vertical'' else ''non-valid'')"
      using vertical ne get c by (simp add: find_relative_position_def ebind_def)
    have cb2: "in_scope cfg i (j - 1) \<Longrightarrow>
        complete_box cfg (placed cfg ?g 1 i j p) 4 i (j - 1) p =
        Inr (placed cfg (placed cfg ?g 1 i j p) 4 i (j - 1) p)" for p
      using sh1 by (rule complete_box_in_scope)
    show ?thesis
      using True sc bits cb2
      unfolding check_position_def on_lattice_iff call frp
      by (simp add: ebind_def Let_def complete_box_if_def c(2,3) [symmetric] cb added_def
          c(1) dir_left_def)
  qed
qed

lemma state_setters [simp]:
  "game (set_game g st) = g"
  "game (set_score v st) = game st" "score (set_score v st) = v"
  "current_player (set_score v st) = current_player st" "depth (set_score v st) = depth st"
  "possible_moves (set_score v st) = possible_moves st"
  "next_state (set_score v st) = next_state st"
  "game (set_possible_moves ms st) = game st" "score (set_possible_moves ms st) = score st"
  "current_player (set_possible_moves ms st) = current_player st"
  "depth (set_possible_moves ms st) = depth st"
  "possible_moves (set_possible_moves ms st) = ms"
  "next_state (set_possible_moves ms st) = next_state st"
  "game (set_next_state n st) = game st" "score (set_next_state n st) = score st"
  "current_player (set_next_state n st) = current_player st"
  "depth (set_next_state n st) = depth st"
  "possible_moves (set_next_state n st) = possible_moves st"
  "next_state (set_next_state n st) = n"
  by (simp_all add: set_game_def set_score_def set_possible_moves_def set_next_state_def)

lemma valid_config_players:
  assumes "valid_config cfg"
  shows "MIN_sym cfg \<noteq> '' ''" and "MAX_sym cfg \<noteq> '' ''" and "MIN_sym cfg \<noteq> MAX_sym cfg"
  using assms by (auto simp: valid_config_def)

lemma valid_config_dims:
  assumes "valid_config cfg"
  shows "1 \<le> LINES cfg" and "1 \<le> COLUMNS cfg" and "LINES cfg \<le> 7" and "COLUMNS cfg \<le> 7"
  using assms by (auto simp: valid_config_def)

lemma Game_init_box:
  assumes "in_scope cfg i j"
  shows "board (Game_init cfg) ! nat i ! nat j = (0, '' '')"
  using assms by (simp add: Game_init_def in_scope_def)

lemma wf_game_init: "wf_game cfg (Game_init cfg)"
proof -
  have sh: "shape cfg (board (Game_init cfg))" by (simp add: shape_def Game_init_def)
  have b: "bits_at (Game_init cfg) i j = 0" "owner_at (Game_init cfg) i j = '' ''"
    if "in_scope cfg i j" for i j
    using Game_init_box [OF that] by (simp_all add: bits_at_def owner_at_def)
  have "filter (\<lambda>(i, j). owner_at (Game_init cfg) i j \<noteq> '' '') (all_boxes cfg) = []"
    by (auto simp: filter_empty_conv set_all_boxes b)
  then have "owned_boxes cfg (Game_init cfg) = 0" by (simp add: owned_boxes_def)
  then have "box_inv cfg (Game_init cfg)"
    using sh b by (simp add: box_inv_def) (simp add: Game_init_def)
  moreover have "mirrored cfg (Game_init cfg)"
    unfolding mirrored_def by (auto simp: b)
  ultimately show ?thesis by (simp add: wf_game_def)
qed

lemma wf_game_shape: "wf_game cfg g \<Longrightarrow> shape cfg (board g)"
  by (simp add: wf_game_def box_inv_def)

lemma placement_added:
  assumes wf: "wf_game cfg g" and v: "valid_config cfg" and pl: "placement cfg g g'"
  shows "\<exists>d0 d1 d2 d3 i j p. (d0, d1, d2, d3) \<in> set directions \<and> in_scope cfg i j \<and>
           bits_at g i j AND d0 = 0 \<and> (p = MIN_sym cfg \<or> p = MAX_sym cfg) \<and>
           g' = added cfg g (d0, d1, d2, d3) i j p"
  using pl
proof cases
  case (computer_move player i j d)
  obtain d0 d1 d2 d3 where d: "d = (d0, d1, d2, d3)" by (cases d)
  have "bits_at g i j AND d0 = 0 \<and> g' = added cfg g (d0, d1, d2, d3) i j player"
    using computer_move(4) add_segment_in_scope [OF wf_game_shape [OF wf] computer_move(2), of d player]
    by (simp add: d split: if_splits)
  then show ?thesis using computer_move(1-3) d by blast
next
  case (human_move line column st st')
  have sh: "shape cfg (board (game st))" using wf human_move(1) by (simp add: wf_game_shape)
  note cp = check_position_closed [OF sh valid_config_dims(1,2) [OF v], of line column]
  have ol: "on_lattice cfg line column"
    using human_move(3) cp by (auto split: if_splits)
  obtain d i j where call: "lattice_call cfg line column = (d, i, j)"
    by (cases "lattice_call cfg line column")
  obtain d0 d1 d2 d3 where d: "d = (d0, d1, d2, d3)" by (cases d)
  have "bits_at g i j AND d0 = 0 \<and> st' = set_game (added cfg g d i j (MIN_sym cfg)) st"
    using human_move(1,3) cp ol call d by (auto split: if_splits)
  then have "bits_at g i j AND d0 = 0 \<and> g' = added cfg g (d0, d1, d2, d3) i j (MIN_sym cfg)"
    using human_move(2) d by simp
  moreover have "in_scope cfg i j" "(d0, d1, d2, d3) \<in> set directions"
    using lattice_call_in_scope [OF ol call valid_config_dims(1,2) [OF v]] d by simp_all
  ultimately show ?thesis by blast
qed

lemma placement_wf:
  assumes "wf_game cfg g" and "valid_config cfg" and "placement cfg g g'"
  shows "wf_game cfg g'"
proof -
  obtain d0 d1 d2 d3 i j p where a: "(d0, d1, d2, d3) \<in> set directions" "in_scope cfg i j"
    "bits_at g i j AND d0 = 0" "p = MIN_sym cfg \<or> p = MAX_sym cfg"
    "g' = added cfg g (d0, d1, d2, d3) i j p"
    using placement_added [OF assms] by blast
  have "p \<noteq> '' ''" using a(4) valid_config_players(1,2) [OF assms(2)] by auto
  then show ?thesis unfolding a(5) using assms(1) a(2,1,3) by (intro wf_game_added)
qed

lemma wf_game_reset: "wf_game cfg g \<Longrightarrow> wf_game cfg (g\<lparr>filled_box := False\<rparr>)"
  by (simp add: wf_game_def box_inv_def mirrored_def bits_at_def owner_at_def owned_boxes_def)

lemma reachable_wf:
  assumes "valid_config cfg" and "reachable cfg g"
  shows "wf_game cfg g"
  using assms(2)
proof induction
  case start
  show ?case by (rule wf_game_init)
next
  case (step g g')
  then show ?case
    using placement_wf [OF _ assms(1)] wf_game_reset by (auto simp: game_step_def)
qed

lemma score_of_placed:
  "score_of cfg (placed cfg g d i j p) p =
     score_of cfg g p + (if (bits_at g i j + d) AND 15 = 15 then 1 else 0)"
  by (simp add: score_of_def placed_def Let_def)

lemma completed_added:
  assumes "(d0, d1, d2, d3) \<in> set directions"
  shows "completed g (added cfg g (d0, d1, d2, d3) i j p) \<in> {0, 1, 2} \<and>
         (filled_box (added cfg g (d0, d1, d2, d3) i j p) \<longleftrightarrow>
            filled_box g \<or> 0 < completed g (added cfg g (d0, d1, d2, d3) i j p))"
  by (simp add: completed_def added_def Let_def scores_placed(1) filled_box_placed)

section \<open>Claims about edge placement\<close>

text \<open>
  Claim C5. On a board of the configured size, let the segment in direction \<open>d\<close> of box
  \<open>(i, j)\<close> be shared with the neighbouring box. If each of the two boxes has exactly its other
  three segments drawn, \<^verbatim>\<open>add_segment\<close> for player \<open>p\<close> returns a game in which both boxes
  are owned by \<open>p\<close>, the score of \<open>p\<close> has grown by exactly 2 and \<^verbatim>\<open>filled_box\<close> is set.
  In general a placement raises the number of completed boxes (the sum of the two scores)
  by 0, 1 or 2, and \<^verbatim>\<open>filled_box\<close> is set by it exactly when that number is positive.
\<close>

theorem add_segment_shared_segment:
  assumes sh: "shape cfg (board g)" and d: "(d0, d1, d2, d3) \<in> set directions"
    and sc: "in_scope cfg i j"
  shows "(in_scope cfg (i + d1) (j + d2) \<and> bits_at g i j = 15 - d0 \<and>
          bits_at g (i + d1) (j + d2) = 15 - d3 \<longrightarrow>
          (\<exists>g'. add_segment cfg g (d0, d1, d2, d3) i j p = Inr (Some g') \<and>
                owner_at g' i j = p \<and> owner_at g' (i + d1) (j + d2) = p \<and>
                score_of cfg g' p = score_of cfg g p + 2 \<and> filled_box g')) \<and>
         (\<forall>g'. add_segment cfg g (d0, d1, d2, d3) i j p = Inr (Some g') \<longrightarrow>
                completed g g' \<in> {0, 1, 2} \<and>
                (filled_box g' \<longleftrightarrow> filled_box g \<or> 0 < completed g g'))"
proof (intro conjI impI allI)
  assume a: "in_scope cfg (i + d1) (j + d2) \<and> bits_at g i j = 15 - d0 \<and>
             bits_at g (i + d1) (j + d2) = 15 - d3"
  then have nb: "in_scope cfg (i + d1) (j + d2)" and b0: "bits_at g i j = 15 - d0"
    and b3: "bits_at g (i + d1) (j + d2) = 15 - d3" by simp_all
  let ?g1 = "placed cfg g d0 i j p"
  let ?g2 = "placed cfg ?g1 d3 (i + d1) (j + d2) p"
  have sh1: "shape cfg (board ?g1)" using sh by (rule shape_placed)
  have ne: "\<not> (i + d1 = i \<and> j + d2 = j)" using direction_codes(3) [OF d] by auto
  have free: "bits_at g i j AND d0 = 0" unfolding b0 using direction_cases [OF d] by auto
  have full0: "(bits_at g i j + d0) AND 15 = 15" unfolding b0 by simp
  have b3': "bits_at ?g1 (i + d1) (j + d2) = 15 - d3"
    using ne b3 by (auto simp: bits_at_placed [OF sh sc nb])
  have full3: "(bits_at ?g1 (i + d1) (j + d2) + d3) AND 15 = 15" unfolding b3' by simp
  have res: "add_segment cfg g (d0, d1, d2, d3) i j p = Inr (Some ?g2)"
    using free nb by (simp add: add_segment_in_scope [OF sh sc] added_def Let_def)
  have o1: "owner_at ?g1 i j = p" using full0 by (simp add: owner_at_placed [OF sh sc sc])
  have o2: "owner_at ?g2 i j = p"
    using o1 ne by (auto simp: owner_at_placed [OF sh1 nb sc])
  have o3: "owner_at ?g2 (i + d1) (j + d2) = p"
    using full3 by (simp add: owner_at_placed [OF sh1 nb nb])
  have s: "score_of cfg ?g2 p = score_of cfg g p + 2"
    using full0 full3 by (simp add: score_of_placed)
  have f: "filled_box ?g2" using full3 by (simp add: filled_box_placed)
  show "\<exists>g'. add_segment cfg g (d0, d1, d2, d3) i j p = Inr (Some g') \<and>
                owner_at g' i j = p \<and> owner_at g' (i + d1) (j + d2) = p \<and>
                score_of cfg g' p = score_of cfg g p + 2 \<and> filled_box g'"
    using res o2 o3 s f by blast
next
  fix g'
  assume "add_segment cfg g (d0, d1, d2, d3) i j p = Inr (Some g')"
  then have g': "g' = added cfg g (d0, d1, d2, d3) i j p"
    by (simp add: add_segment_in_scope [OF sh sc] split: if_splits)
  show "completed g g' \<in> {0, 1, 2}" unfolding g' using completed_added [OF d] by blast
  show "filled_box g' \<longleftrightarrow> filled_box g \<or> 0 < completed g g'"
    unfolding g' using completed_added [OF d] by blast
qed

theorem add_segment_shared_segment_witness:
  "shape cfg12 (board game_two_open) \<and> dir_left \<in> set directions \<and> in_scope cfg12 0 1 \<and>
   in_scope cfg12 0 0 \<and> bits_at game_two_open 0 1 = 15 - 1 \<and> bits_at game_two_open 0 0 = 15 - 4 \<and>
   (\<exists>g'. add_segment cfg12 game_two_open dir_left 0 1 ''O'' = Inr (Some g') \<and>
          owner_at g' 0 1 = ''O'' \<and> owner_at g' 0 0 = ''O'' \<and>
          score_of cfg12 g' ''O'' = 2 \<and> filled_box g')"
proof -
  have sh: "shape cfg12 (board game_two_open)"
    by (simp add: shape_def cfg12_def game_two_open_def)
  have d: "(1, 0, -1, 4) \<in> set directions" by (simp add: directions_def dir_left_def)
  have sc: "in_scope cfg12 0 1" "in_scope cfg12 (0 + 0) (1 + - 1)"
    by (simp_all add: in_scope_def cfg12_def)
  have b: "bits_at game_two_open 0 1 = 15 - 1" "bits_at game_two_open (0 + 0) (1 + - 1) = 15 - 4"
    by (simp_all add: bits_at_def game_two_open_def)
  have s0: "score_of cfg12 game_two_open ''O'' = 0"
    by (simp add: score_of_def cfg12_def game_two_open_def)
  from add_segment_shared_segment [OF sh d sc(1), of "''O''"] sc(2) b
  obtain g' where g': "add_segment cfg12 game_two_open (1, 0, -1, 4) 0 1 ''O'' = Inr (Some g')"
    "owner_at g' 0 (1 + - 1) = ''O''" "owner_at g' 0 1 = ''O''"
    "score_of cfg12 g' ''O'' = score_of cfg12 game_two_open ''O'' + 2" "filled_box g'"
    by auto
  then show ?thesis using sh sc b s0 by (auto simp: dir_left_def directions_def)
qed

lemma length_all_boxes: "int (length (all_boxes cfg)) = int (nat (LINES cfg)) * int (nat (COLUMNS cfg))"
  by (simp add: all_boxes_def length_product)

lemma owned_boxes_le:
  assumes "0 \<le> LINES cfg" and "0 \<le> COLUMNS cfg"
  shows "owned_boxes cfg g \<le> LINES cfg * COLUMNS cfg"
proof -
  have "owned_boxes cfg g \<le> int (length (all_boxes cfg))"
    unfolding owned_boxes_def by simp
  then show ?thesis using assms by (simp add: length_all_boxes)
qed

lemma completed_placement:
  assumes "wf_game cfg g" and "valid_config cfg" and "placement cfg g g'"
  shows "completed g g' \<in> {0, 1, 2}"
proof -
  obtain d0 d1 d2 d3 i j p where a: "(d0, d1, d2, d3) \<in> set directions"
    "g' = added cfg g (d0, d1, d2, d3) i j p"
    using placement_added [OF assms] by blast
  show ?thesis unfolding a(2) using completed_added [OF a(1)] by blast
qed

section \<open>Claims about reachable game states\<close>

text \<open>
  Claim C6. In every game state reachable from the empty board, a box has an owner exactly
  when all four of its segment bits are set; the two scores add up to the number of owned
  boxes, which is at most LINES * COLUMNS; and a step of the game that changes the sum of
  the scores is an edge placement and raises it.
\<close>

theorem reachable_invariant:
  assumes v: "valid_config cfg" and r: "reachable cfg g"
  shows "(\<forall>i j. in_scope cfg i j \<longrightarrow>
            (owner_at g i j \<noteq> '' '' \<longleftrightarrow>
               bits_at g i j AND 8 \<noteq> 0 \<and> bits_at g i j AND 1 \<noteq> 0 \<and>
               bits_at g i j AND 4 \<noteq> 0 \<and> bits_at g i j AND 2 \<noteq> 0)) \<and>
         score_sum g = owned_boxes cfg g \<and>
         score_sum g \<le> LINES cfg * COLUMNS cfg \<and>
         (\<forall>g'. game_step cfg g g' \<longrightarrow>
            score_sum g \<le> score_sum g' \<and>
            (score_sum g \<noteq> score_sum g' \<longrightarrow> placement cfg g g'))"
proof -
  have wf: "wf_game cfg g" using v r by (rule reachable_wf)
  then have inv: "box_inv cfg g" by (simp add: wf_game_def)
  have owners: "owner_at g i j \<noteq> '' '' \<longleftrightarrow>
      bits_at g i j AND 8 \<noteq> 0 \<and> bits_at g i j AND 1 \<noteq> 0 \<and>
      bits_at g i j AND 4 \<noteq> 0 \<and> bits_at g i j AND 2 \<noteq> 0" if "in_scope cfg i j" for i j
  proof -
    have "0 \<le> bits_at g i j" "bits_at g i j \<le> 15"
      and "owner_at g i j \<noteq> '' '' \<longleftrightarrow> bits_at g i j = 15"
      using inv that by (auto simp: box_inv_def)
    then show ?thesis using full_codes [of "bits_at g i j"] by simp
  qed
  have sum: "score_sum g = owned_boxes cfg g"
    using inv by (simp add: box_inv_def score_sum_def)
  have bound: "score_sum g \<le> LINES cfg * COLUMNS cfg"
    unfolding sum using valid_config_dims(1,2) [OF v] by (intro owned_boxes_le) auto
  have steps: "score_sum g \<le> score_sum g' \<and> (score_sum g \<noteq> score_sum g' \<longrightarrow> placement cfg g g')"
    if "game_step cfg g g'" for g'
  proof (cases "placement cfg g g'")
    case True
    then show ?thesis
      using completed_placement [OF wf v True] by (auto simp: completed_def score_sum_def)
  next
    case False
    then have "g' = g\<lparr>filled_box := False\<rparr>" using that by (simp add: game_step_def)
    then show ?thesis by (simp add: score_sum_def)
  qed
  show ?thesis using owners sum bound steps by blast
qed

lemmas eval_defs =
  add_segment_def complete_box_def board_get_def board_set_def py_get_def py_set_def
  py_index_def ebind_def in_scope_def dir_up_def dir_left_def dir_right_def dir_down_def
  directions_def Let_def

lemma reachable_add_segment:
  assumes "reachable cfg g" and "p = MIN_sym cfg \<or> p = MAX_sym cfg" and "in_scope cfg i j"
    and "d \<in> set directions" and "add_segment cfg g d i j p = Inr (Some g')"
  shows "reachable cfg g'"
  using assms(1)
proof (rule reachable.step)
  show "game_step cfg g g'"
    unfolding game_step_def using placement.computer_move [OF assms(2-5)] by simp
qed

lemma valid_cfg11: "valid_config cfg11"
  by (simp add: valid_config_def cfg11_def)

lemma valid_cfg12: "valid_config cfg12"
  by (simp add: valid_config_def cfg12_def)

lemma reachable_game_11_closed: "reachable cfg11 game_11_closed"
proof -
  let ?g1 = "\<lparr>board = [[(8, '' '')]], score_min = 0, score_max = 0, filled_box = False,
      last_segment = Some (0, 0, ''X'')\<rparr>"
  let ?g2 = "\<lparr>board = [[(9, '' '')]], score_min = 0, score_max = 0, filled_box = False,
      last_segment = Some (0, 0, ''O'')\<rparr>"
  let ?g3 = "\<lparr>board = [[(13, '' '')]], score_min = 0, score_max = 0, filled_box = False,
      last_segment = Some (0, 0, ''X'')\<rparr>"
  have sc: "in_scope cfg11 0 0" by (simp add: in_scope_def cfg11_def)
  have p: "''X'' = MIN_sym cfg11 \<or> ''X'' = MAX_sym cfg11" "''O'' = MIN_sym cfg11 \<or> ''O'' = MAX_sym cfg11"
    by (simp_all add: cfg11_def)
  have d: "dir_up \<in> set directions" "dir_left \<in> set directions" "dir_right \<in> set directions"
    "dir_down \<in> set directions" by (simp_all add: directions_def)
  have "add_segment cfg11 (Game_init cfg11) dir_up 0 0 ''X'' = Inr (Some ?g1)"
    by (simp add: eval_defs Game_init_def cfg11_def)
  from reachable_add_segment [OF reachable.start p(1) sc d(1) this]
  have r1: "reachable cfg11 ?g1" .
  have "add_segment cfg11 ?g1 dir_left 0 0 ''O'' = Inr (Some ?g2)"
    by (simp add: eval_defs cfg11_def)
  from reachable_add_segment [OF r1 p(2) sc d(2) this]
  have r2: "reachable cfg11 ?g2" .
  have "add_segment cfg11 ?g2 dir_right 0 0 ''X'' = Inr (Some ?g3)"
    by (simp add: eval_defs cfg11_def)
  from reachable_add_segment [OF r2 p(1) sc d(3) this]
  have r3: "reachable cfg11 ?g3" .
  have "add_segment cfg11 ?g3 dir_down 0 0 ''O'' = Inr (Some game_11_closed)"
    by (simp add: eval_defs cfg11_def game_11_closed_def)
  from reachable_add_segment [OF r3 p(2) sc d(4) this]
  show ?thesis .
qed

theorem reachable_invariant_witness:
  "valid_config cfg11 \<and> reachable cfg11 game_11_closed \<and>
   owner_at game_11_closed 0 0 = ''O'' \<and> bits_at game_11_closed 0 0 = 15 \<and>
   score_sum game_11_closed = owned_boxes cfg11 game_11_closed \<and>
   score_sum game_11_closed = 1 \<and> LINES cfg11 * COLUMNS cfg11 = 1"
proof -
  note inv = reachable_invariant [OF valid_cfg11 reachable_game_11_closed]
  have "score_sum game_11_closed = owned_boxes cfg11 game_11_closed" using inv by blast
  then show ?thesis
    using valid_cfg11 reachable_game_11_closed
    by (simp add: owner_at_def bits_at_def game_11_closed_def score_sum_def cfg11_def)
qed

section \<open>The move generator on well-formed boards\<close>

lemma traverse_map:
  assumes "\<forall>x\<in>set xs. f x = Inr (h x)"
  shows "traverse f xs = Inr (map h xs)"
  using assms by (induction xs) (simp_all add: ebind_def)

lemma map_filter_if:
  "List.map_filter (\<lambda>g. g) (map (\<lambda>x. if P x then Some (f x) else None) xs) = map f (filter P xs)"
  by (induction xs) simp_all

lemma move_calls_iff:
  "(d, i, j) \<in> set (move_calls cfg) \<longleftrightarrow>
     (in_scope cfg i j \<and> (d = dir_up \<or> d = dir_left)) \<or>
     (d = dir_right \<and> 0 \<le> i \<and> i < LINES cfg \<and> j = COLUMNS cfg - 1) \<or>
     (d = dir_down \<and> i = LINES cfg - 1 \<and> 0 \<le> j \<and> j < COLUMNS cfg)"
proof -
  have rows: "(d, i, j) \<in> set (concat (map (\<lambda>i.
         concat (map (\<lambda>j. [(dir_up, i, j), (dir_left, i, j)]) [0..COLUMNS cfg - 1])
         @ [(dir_right, i, COLUMNS cfg - 1)]) [0..LINES cfg - 1])) \<longleftrightarrow>
     0 \<le> i \<and> i < LINES cfg \<and>
     ((0 \<le> j \<and> j < COLUMNS cfg \<and> (d = dir_up \<or> d = dir_left)) \<or>
      (d = dir_right \<and> j = COLUMNS cfg - 1))"
    by (auto simp: Bex_def)
  have last: "(d, i, j) \<in> set (map (\<lambda>j. (dir_down, LINES cfg - 1, j)) [0..COLUMNS cfg - 1]) \<longleftrightarrow>
     d = dir_down \<and> i = LINES cfg - 1 \<and> 0 \<le> j \<and> j < COLUMNS cfg"
    by auto
  show ?thesis
    unfolding move_calls_def set_append Un_iff rows last in_scope_def by blast
qed

lemma move_calls_in_scope:
  assumes "(d, i, j) \<in> set (move_calls cfg)" and "1 \<le> LINES cfg" and "1 \<le> COLUMNS cfg"
  shows "in_scope cfg i j" and "d \<in> set directions"
  using assms by (auto simp: move_calls_iff in_scope_def directions_def)

lemma moves_Game_closed:
  assumes sh: "shape cfg (board g)" and dims: "1 \<le> LINES cfg" "1 \<le> COLUMNS cfg"
  shows "moves_Game cfg g p =
           Inr (map (\<lambda>c. if free_call g c then Some (apply_call cfg g p c) else None)
                  (move_calls cfg))"
  unfolding moves_Game_def
proof (rule traverse_map, rule ballI)
  fix c assume c: "c \<in> set (move_calls cfg)"
  obtain d i j where cc: "c = (d, i, j)" by (cases c)
  have "in_scope cfg i j" using c dims unfolding cc by (rule move_calls_in_scope)
  then show "(case c of (d, i, j) \<Rightarrow> add_segment cfg g d i j p) =
      Inr (if free_call g c then Some (apply_call cfg g p c) else None)"
    by (simp add: cc add_segment_in_scope [OF sh] free_call_def apply_call_def)
qed

lemma moves_State_closed:
  assumes sh: "shape cfg (board (game st))" and dims: "1 \<le> LINES cfg" "1 \<le> COLUMNS cfg"
  shows "moves_State cfg st =
           Inr (map (\<lambda>c. child_state cfg st (apply_call cfg (game st) (current_player st) c))
                  (filter (free_call (game st)) (move_calls cfg)))"
  by (simp add: moves_State_def moves_Game_closed [OF assms] ebind_def map_filter_if)

lemma unowned_box_exists:
  assumes inv: "box_inv cfg g" and lt: "score_min g + score_max g < LINES cfg * COLUMNS cfg"
    and dims: "0 \<le> LINES cfg" "0 \<le> COLUMNS cfg"
  shows "\<exists>i j. in_scope cfg i j \<and> owner_at g i j = '' ''"
proof (rule ccontr)
  assume "\<not> ?thesis"
  then have "\<forall>x\<in>set (all_boxes cfg). (\<lambda>(i, j). owner_at g i j \<noteq> '' '') x"
    by (auto simp: set_all_boxes)
  then have "filter (\<lambda>(i, j). owner_at g i j \<noteq> '' '') (all_boxes cfg) = all_boxes cfg"
    by (rule filter_True)
  then have "owned_boxes cfg g = LINES cfg * COLUMNS cfg"
    using dims by (simp add: owned_boxes_def length_all_boxes)
  then show False using inv lt by (simp add: box_inv_def)
qed

lemma free_call_exists:
  assumes wf: "wf_game cfg g" and lt: "score_min g + score_max g < LINES cfg * COLUMNS cfg"
    and dims: "1 \<le> LINES cfg" "1 \<le> COLUMNS cfg"
  shows "\<exists>c\<in>set (move_calls cfg). free_call g c"
proof -
  have inv: "box_inv cfg g" and mir: "mirrored cfg g" using wf by (simp_all add: wf_game_def)
  obtain i j where sc: "in_scope cfg i j" and un: "owner_at g i j = '' ''"
    using unowned_box_exists [OF inv lt] dims by auto
  have rng: "0 \<le> bits_at g i j" "bits_at g i j \<le> 15" and "bits_at g i j \<noteq> 15"
    using inv sc un by (auto simp: box_inv_def)
  then consider (up) "bits_at g i j AND 8 = 0" | (left) "bits_at g i j AND 1 = 0"
    | (right) "bits_at g i j AND 4 = 0" | (down) "bits_at g i j AND 2 = 0"
    using full_codes [OF rng] by blast
  then show ?thesis
  proof cases
    case up
    have "(dir_up, i, j) \<in> set (move_calls cfg)" using sc by (simp add: move_calls_iff)
    moreover have "free_call g (dir_up, i, j)" using up by (simp add: free_call_def dir_up_def)
    ultimately show ?thesis by blast
  next
    case left
    have "(dir_left, i, j) \<in> set (move_calls cfg)" using sc by (simp add: move_calls_iff)
    moreover have "free_call g (dir_left, i, j)" using left by (simp add: free_call_def dir_left_def)
    ultimately show ?thesis by blast
  next
    case right
    show ?thesis
    proof (cases "j = COLUMNS cfg - 1")
      case True
      then have "(dir_right, i, j) \<in> set (move_calls cfg)"
        using sc by (simp add: move_calls_iff in_scope_def)
      moreover have "free_call g (dir_right, i, j)"
        using right by (simp add: free_call_def dir_right_def)
      ultimately show ?thesis by blast
    next
      case False
      then have nb: "in_scope cfg (i + 0) (j + 1)" using sc by (simp add: in_scope_def)
      have "(4, 0, 1, 1) \<in> set directions" by (simp add: directions_def dir_right_def)
      from mirroredD [OF mir this sc nb] right
      have "bits_at g i (j + 1) AND 1 = 0" by simp
      then have "free_call g (dir_left, i, j + 1)" by (simp add: free_call_def dir_left_def)
      moreover have "(dir_left, i, j + 1) \<in> set (move_calls cfg)"
        using nb by (simp add: move_calls_iff)
      ultimately show ?thesis by blast
    qed
  next
    case down
    show ?thesis
    proof (cases "i = LINES cfg - 1")
      case True
      then have "(dir_down, i, j) \<in> set (move_calls cfg)"
        using sc by (simp add: move_calls_iff in_scope_def)
      moreover have "free_call g (dir_down, i, j)"
        using down by (simp add: free_call_def dir_down_def)
      ultimately show ?thesis by blast
    next
      case False
      then have nb: "in_scope cfg (i + 1) (j + 0)" using sc by (simp add: in_scope_def)
      have "(2, 1, 0, 8) \<in> set directions" by (simp add: directions_def dir_down_def)
      from mirroredD [OF mir this sc nb] down
      have "bits_at g (i + 1) j AND 8 = 0" by simp
      then have "free_call g (dir_up, i + 1, j)" by (simp add: free_call_def dir_up_def)
      moreover have "(dir_up, i + 1, j) \<in> set (move_calls cfg)"
        using nb by (simp add: move_calls_iff)
      ultimately show ?thesis by blast
    qed
  qed
qed

section \<open>Claims about the move generator\<close>

text \<open>
  Claim C10. In a reachable game state that is not terminal (the two scores add up to less
  than LINES * COLUMNS) the move generator of a search state returns at least one child, so
  \<^verbatim>\<open>max\<close> and \<^verbatim>\<open>min\<close> in \<^verbatim>\<open>min_max\<close> are never applied to an empty list and the loop of
  \<^verbatim>\<open>alpha_beta_state\<close> visits a child.
\<close>

theorem moves_nonempty:
  assumes v: "valid_config cfg" and r: "reachable cfg (game st)"
    and lt: "score_min (game st) + score_max (game st) < LINES cfg * COLUMNS cfg"
  shows "\<exists>kid kids. moves_State cfg st = Inr (kid # kids) \<and>
           py_max (kid # kids) \<noteq> Inl ValueError \<and> py_min (kid # kids) \<noteq> Inl ValueError"
proof -
  have wf: "wf_game cfg (game st)" using v r by (rule reachable_wf)
  note dims = valid_config_dims(1,2) [OF v]
  obtain c where c: "c \<in> set (move_calls cfg)" "free_call (game st) c"
    using free_call_exists [OF wf lt dims] by blast
  then have "filter (free_call (game st)) (move_calls cfg) \<noteq> []"
    by (auto simp: filter_empty_conv)
  then obtain kid kids where k: "moves_State cfg st = Inr (kid # kids)"
    unfolding moves_State_closed [OF wf_game_shape [OF wf] dims]
    by (cases "filter (free_call (game st)) (move_calls cfg)") auto
  have "py_max_from b xs \<noteq> Inl ValueError" "py_min_from b xs \<noteq> Inl ValueError" for b xs
    by (induction xs arbitrary: b; auto simp: ebind_def score_gt_def split: sum.splits option.splits)+
  then show ?thesis using k by (auto simp: py_max_def py_min_def)
qed

theorem moves_nonempty_witness:
  "valid_config cfg12 \<and> reachable cfg12 (game (State_init (Game_init cfg12) ''X'' 1)) \<and>
   score_min (game (State_init (Game_init cfg12) ''X'' 1)) +
     score_max (game (State_init (Game_init cfg12) ''X'' 1)) < LINES cfg12 * COLUMNS cfg12 \<and>
   (\<exists>kid kids. moves_State cfg12 (State_init (Game_init cfg12) ''X'' 1) = Inr (kid # kids) \<and>
      py_max (kid # kids) \<noteq> Inl ValueError \<and> py_min (kid # kids) \<noteq> Inl ValueError)"
proof -
  let ?st = "State_init (Game_init cfg12) ''X'' 1"
  have r: "reachable cfg12 (game ?st)" by (simp add: State_init_def reachable.start)
  have lt: "score_min (game ?st) + score_max (game ?st) < LINES cfg12 * COLUMNS cfg12"
    by (simp add: State_init_def Game_init_def cfg12_def)
  from moves_nonempty [OF valid_cfg12 r lt] show ?thesis using valid_cfg12 r lt by blast
qed

section \<open>Segments on the lattice of dots\<close>

lemma segment_boxes_call:
  assumes ol: "on_lattice cfg line column" and dims: "1 \<le> LINES cfg" "1 \<le> COLUMNS cfg"
    and call: "lattice_call cfg line column = ((d0, d1, d2, d3), i, j)"
  shows "set (segment_boxes cfg line column) =
           insert (i, j, d0) (if in_scope cfg (i + d1) (j + d2) then {(i + d1, j + d2, d3)} else {})"
proof -
  have sc: "in_scope cfg i j" using ol call dims by (rule lattice_call_in_scope)
  have r: "0 \<le> line" "line \<le> 2 * LINES cfg" "0 \<le> column" "column \<le> 2 * COLUMNS cfg"
    "odd line \<longleftrightarrow> even column"
    using ol by (auto simp: on_lattice_def)
  consider (bottom) "line = 2 * LINES cfg"
    | (horizontal) "line \<noteq> 2 * LINES cfg" "line mod 2 = 0"
    | (right) "line mod 2 \<noteq> 0" "column = 2 * COLUMNS cfg"
    | (vertical) "line mod 2 \<noteq> 0" "column \<noteq> 2 * COLUMNS cfg"
    by blast
  then show ?thesis
  proof cases
    case bottom
    then have c: "d0 = 2" "d1 = 1" "d2 = 0" "d3 = 8" "line div 2 = i + 1" "column div 2 = j"
      using call by (auto simp: lattice_call_def dir_down_def)
    have out: "\<not> in_scope cfg (i + 1) j" using c bottom by (simp add: in_scope_def)
    have "even line" using bottom by simp
    then show ?thesis using sc out by (simp add: segment_boxes_def c)
  next
    case horizontal
    then have c: "d0 = 8" "d1 = -1" "d2 = 0" "d3 = 2" "line div 2 = i" "column div 2 = j"
      using call by (auto simp: lattice_call_def dir_up_def)
    have "even line" using horizontal by presburger
    then show ?thesis using sc by (auto simp: segment_boxes_def c)
  next
    case right
    have ne: "line \<noteq> 2 * LINES cfg" using right(1) by presburger
    have c: "d0 = 4" "d1 = 0" "d2 = 1" "d3 = 1" "line div 2 = i" "column div 2 = j + 1"
      using call right ne by (auto simp: lattice_call_def dir_right_def)
    have out: "\<not> in_scope cfg i (j + 1)" using c right by (simp add: in_scope_def)
    have "odd line" using right by presburger
    then show ?thesis using sc out by (simp add: segment_boxes_def c)
  next
    case vertical
    have ne: "line \<noteq> 2 * LINES cfg" using vertical(1) by presburger
    have c: "d0 = 1" "d1 = 0" "d2 = -1" "d3 = 4" "line div 2 = i" "column div 2 = j"
      using call vertical ne by (auto simp: lattice_call_def dir_left_def)
    have "odd line" using vertical by presburger
    then show ?thesis using sc by (auto simp: segment_boxes_def c)
  qed
qed

lemma segment_drawn_call:
  assumes wf: "wf_game cfg g" and ol: "on_lattice cfg line column"
    and dims: "1 \<le> LINES cfg" "1 \<le> COLUMNS cfg"
    and call: "lattice_call cfg line column = ((d0, d1, d2, d3), i, j)"
  shows "segment_drawn cfg g line column \<longleftrightarrow> bits_at g i j AND d0 \<noteq> 0"
proof -
  have sc: "in_scope cfg i j" and d: "(d0, d1, d2, d3) \<in> set directions"
    using lattice_call_in_scope [OF ol call dims] by simp_all
  have mir: "mirrored cfg g" using wf by (simp add: wf_game_def)
  show ?thesis
    unfolding segment_drawn_def segment_boxes_call [OF ol dims call]
    using mirroredD [OF mir d sc] by auto
qed

section \<open>Claims about human input\<close>

text \<open>
  Claim C8. On a reachable game, \<^verbatim>\<open>check_position\<close> returns without raising. It accepts
  exactly when the pair lies in [0, 2 LINES] x [0, 2 COLUMNS], exactly one coordinate is odd
  and the addressed segment is not drawn. When it accepts, every box next to the segment
  records it afterwards and every other segment bit of every box is as before; when it
  rejects, the state is unchanged.
\<close>

theorem check_position_accepts:
  assumes v: "valid_config cfg" and r: "reachable cfg (game st)"
  shows "\<exists>ok st'. check_position cfg line column st = Inr (ok, st') \<and>
           (ok \<longleftrightarrow> 0 \<le> line \<and> line \<le> 2 * LINES cfg \<and> 0 \<le> column \<and> column \<le> 2 * COLUMNS cfg \<and>
                   odd line \<noteq> odd column \<and> \<not> segment_drawn cfg (game st) line column) \<and>
           (\<not> ok \<longrightarrow> st' = st) \<and>
           (ok \<longrightarrow>
              (\<forall>(i, j, c)\<in>set (segment_boxes cfg line column). bits_at (game st') i j AND c \<noteq> 0) \<and>
              (\<forall>i j c. in_scope cfg i j \<and> c \<in> {1, 2, 4, 8} \<and>
                        (i, j, c) \<notin> set (segment_boxes cfg line column) \<longrightarrow>
                        (bits_at (game st') i j AND c = 0 \<longleftrightarrow> bits_at (game st) i j AND c = 0)))"
proof -
  let ?g = "game st"
  have wf: "wf_game cfg ?g" using v r by (rule reachable_wf)
  note dims = valid_config_dims(1,2) [OF v]
  note cp = check_position_closed [OF wf_game_shape [OF wf] dims, of line column]
  have lat: "on_lattice cfg line column \<longleftrightarrow>
      0 \<le> line \<and> line \<le> 2 * LINES cfg \<and> 0 \<le> column \<and> column \<le> 2 * COLUMNS cfg \<and>
      odd line \<noteq> odd column"
    by (auto simp: on_lattice_def)
  show ?thesis
  proof (cases "on_lattice cfg line column")
    case False
    then have "check_position cfg line column st = Inr (False, st)" using cp by simp
    then show ?thesis using False lat by auto
  next
    case True
    obtain d0 d1 d2 d3 i j where call: "lattice_call cfg line column = ((d0, d1, d2, d3), i, j)"
      by (cases "lattice_call cfg line column") auto
    have sc: "in_scope cfg i j" and d: "(d0, d1, d2, d3) \<in> set directions"
      using lattice_call_in_scope [OF True call dims] by simp_all
    note drawn = segment_drawn_call [OF wf True dims call]
    note boxes = segment_boxes_call [OF True dims call]
    show ?thesis
    proof (cases "bits_at ?g i j AND d0 = 0")
      case False
      then have "check_position cfg line column st = Inr (False, st)"
        using cp True call by simp
      then show ?thesis using False drawn by auto
    next
      case free: True
      let ?g' = "added cfg ?g (d0, d1, d2, d3) i j (MIN_sym cfg)"
      have res: "check_position cfg line column st = Inr (True, set_game ?g' st)"
        using cp True call free by simp
      have near: "\<forall>(x, y, c)\<in>set (segment_boxes cfg line column). bits_at ?g' x y AND c \<noteq> 0"
        unfolding boxes
        using free_added [OF wf sc sc d free direction_codes(1) [OF d]]
          free_added [OF wf sc _ d free direction_codes(2) [OF d], of "i + d1" "j + d2"]
        by auto
      have far: "bits_at ?g' x y AND c = 0 \<longleftrightarrow> bits_at ?g x y AND c = 0"
        if "in_scope cfg x y" "c \<in> {1, 2, 4, 8}" "(x, y, c) \<notin> set (segment_boxes cfg line column)"
        for x y c
        using that(3) unfolding boxes free_added [OF wf sc that(1) d free that(2)]
        by (auto split: if_splits)
      show ?thesis
        using res near far True lat drawn free by auto
    qed
  qed
qed

theorem check_position_accepts_witness:
  "valid_config cfg12 \<and> reachable cfg12 (game (State_init (Game_init cfg12) ''X'' 1)) \<and>
   (\<exists>st'. check_position cfg12 0 1 (State_init (Game_init cfg12) ''X'' 1) = Inr (True, st') \<and>
          bits_at (game st') 0 0 AND 8 \<noteq> 0 \<and>
          (bits_at (game st') 0 1 AND 8 = 0) = (bits_at (Game_init cfg12) 0 1 AND 8 = 0)) \<and>
   check_position cfg12 0 0 (State_init (Game_init cfg12) ''X'' 1) =
     Inr (False, State_init (Game_init cfg12) ''X'' 1)"
proof -
  let ?st = "State_init (Game_init cfg12) ''X'' 1"
  have g: "game ?st = Game_init cfg12" by (simp add: State_init_def)
  have r: "reachable cfg12 (game ?st)" unfolding g by (rule reachable.start)
  have boxes: "segment_boxes cfg12 0 1 = [(0, 0, 8)]"
    by (simp add: segment_boxes_def in_scope_def cfg12_def)
  have undrawn: "\<not> segment_drawn cfg12 (game ?st) 0 1"
    unfolding segment_drawn_def boxes g by (simp add: bits_at_def Game_init_def cfg12_def)
  have sc: "in_scope cfg12 0 1" by (simp add: in_scope_def cfg12_def)
  have rng: "(0::int) \<le> 2 * LINES cfg12" "(1::int) \<le> 2 * COLUMNS cfg12" by (simp_all add: cfg12_def)
  from check_position_accepts [OF valid_cfg12 r, of 0 1] undrawn rng sc
  have first: "\<exists>st'. check_position cfg12 0 1 ?st = Inr (True, st') \<and>
      bits_at (game st') 0 0 AND 8 \<noteq> 0 \<and>
      (bits_at (game st') 0 1 AND 8 = 0) = (bits_at (Game_init cfg12) 0 1 AND 8 = 0)"
    unfolding boxes g by fastforce
  from check_position_accepts [OF valid_cfg12 r, of 0 0]
  have second: "check_position cfg12 0 0 ?st = Inr (False, ?st)" by auto
  show ?thesis using valid_cfg12 r first second by blast
qed

section \<open>The search: stale completion flag and bound updates\<close>

text \<open>
  Claim C1 fails on the code. On a board of one line and two columns whose left box lacks
  only its right segment, with O (MAX) to move, the second child of the root closes the
  left box: O moves again and the child's game carries \<^verbatim>\<open>filled_box = True\<close>. Every child of
  that child is a deep copy of this game, so its flag is still set although its own move
  completes no box, and \<^verbatim>\<open>State.moves\<close> gives it the player O again instead of X.
\<close>

theorem moves_State_stale_filled_box:
  "child_turns cfg12 (State_init game_three_sides ''O'' 2) =
     [(0, ''X''), (1, ''O''), (0, ''X''), (0, ''X'')] \<and>
   children cfg12 (State_init game_three_sides ''O'' 2) ! 1 = State_init game_left_closed ''O'' 1 \<and>
   child_turns cfg12 (State_init game_left_closed ''O'' 1) = [(0, ''O''), (0, ''O''), (0, ''O'')]"
  by code_simp

text \<open>
  Claim C3 fails on the code. \<^verbatim>\<open>alpha_beta_state\<close> computes \<^verbatim>\<open>alpha = min(alpha, score)\<close> on a
  MAX node and \<^verbatim>\<open>beta = max(beta, score)\<close> on a MIN node. From the same root, searched to
  depth 2 with the window (-5000, 5000) of \<^verbatim>\<open>computer_turn\<close>, the second child scores 2; with
  \<open>alpha = max(alpha, 2)\<close> the third child (a MIN node) would stop after its first child,
  whose score 2 makes \<open>beta = 2 \<le> alpha\<close>. The code visits and scores all three of
  its children, and likewise those of the fourth child.
\<close>

theorem alpha_beta_state_bounds:
  "visited_scores (alpha_beta cfg12 (- 5000) 5000 (State_init game_three_sides ''O'' 2)) =
     [[Some (- 2), Some 2, Some 2], [Some 2, Some 2, Some 2],
      [Some 2, Some (- 2), Some 1], [Some 2, Some (- 2), Some 1]] \<and>
   map current_player (children cfg12 (State_init game_three_sides ''O'' 2)) =
     [''X'', ''O'', ''X'', ''X'']"
  by code_simp

section \<open>The look-ahead heuristic on well-formed boards\<close>

lemma sum_list_less:
  fixes f g :: "'a \<Rightarrow> nat"
  assumes "\<forall>x\<in>set xs. f x \<le> g x" and "x \<in> set xs" and "f x < g x"
  shows "sum_list (map f xs) < sum_list (map g xs)"
  using assms
proof (induction xs)
  case Nil
  then show ?case by simp
next
  case (Cons a xs)
  have le: "sum_list (map f xs) \<le> sum_list (map g xs)"
    using Cons.prems(1) by (intro sum_list_mono) simp
  show ?case
  proof (cases "a = x")
    case True
    then show ?thesis using le Cons.prems(3) by simp
  next
    case False
    then have "sum_list (map f xs) < sum_list (map g xs)"
      using Cons by auto
    moreover have "f a \<le> g a" using Cons.prems(1) by simp
    ultimately show ?thesis by simp
  qed
qed

lemma free_count_le: "free_count b \<le> 4"
  by (simp add: free_count_def)

lemma free_count_mono:
  assumes "\<forall>c\<in>{1, 2, 4, 8}. b' AND c = 0 \<longrightarrow> b AND c = 0"
  shows "free_count b' \<le> free_count b"
  using assms by (simp add: free_count_def)

lemma free_count_less:
  assumes "\<forall>c\<in>{1, 2, 4, 8}. b' AND c = 0 \<longrightarrow> b AND c = 0"
    and "d \<in> {1, 2, 4, 8}" and "b AND d = 0" and "b' AND d \<noteq> 0"
  shows "free_count b' < free_count b"
  using assms by (auto simp: free_count_def)

lemma free_bits_added:
  assumes wf: "wf_game cfg g" and sc: "in_scope cfg i j"
    and d: "(d0, d1, d2, d3) \<in> set directions" and free: "bits_at g i j AND d0 = 0"
  shows "free_bits cfg (added cfg g (d0, d1, d2, d3) i j p) < free_bits cfg g"
  unfolding free_bits_def
proof (rule sum_list_less [where x = "(i, j)"])
  let ?g' = "added cfg g (d0, d1, d2, d3) i j p"
  show "\<forall>x\<in>set (all_boxes cfg).
      (case x of (i, j) \<Rightarrow> free_count (bits_at ?g' i j)) \<le>
      (case x of (i, j) \<Rightarrow> free_count (bits_at g i j))"
  proof (clarify, rule free_count_mono, rule ballI, rule impI)
    fix x y c
    assume "(x, y) \<in> set (all_boxes cfg)" and c: "c \<in> {1, 2, 4, 8}"
      and f: "bits_at ?g' x y AND c = 0"
    then have xy: "in_scope cfg x y" by (simp add: set_all_boxes)
    show "bits_at g x y AND c = 0"
      using f unfolding free_added [OF wf sc xy d free c] by simp
  qed
  show "(i, j) \<in> set (all_boxes cfg)" using sc by (simp add: set_all_boxes)
  have "free_count (bits_at ?g' i j) < free_count (bits_at g i j)"
  proof (rule free_count_less [where d = d0])
    show "\<forall>c\<in>{1, 2, 4, 8}. bits_at ?g' i j AND c = 0 \<longrightarrow> bits_at g i j AND c = 0"
      using free_added [OF wf sc sc d free] by blast
    show "d0 \<in> {1, 2, 4, 8}" using d by (rule direction_codes)
    show "bits_at g i j AND d0 = 0" by (rule free)
    show "bits_at ?g' i j AND d0 \<noteq> 0"
      using free_added [OF wf sc sc d free direction_codes(1) [OF d]] by simp
  qed
  then show "(case (i, j) of (i, j) \<Rightarrow> free_count (bits_at ?g' i j)) <
      (case (i, j) of (i, j) \<Rightarrow> free_count (bits_at g i j))" by simp
qed

lemma free_bits_le:
  assumes "0 \<le> LINES cfg" and "0 \<le> COLUMNS cfg"
  shows "int (free_bits cfg g) \<le> 4 * (LINES cfg * COLUMNS cfg)"
proof -
  have "free_bits cfg g \<le> sum_list (map (\<lambda>x. 4) (all_boxes cfg))"
    unfolding free_bits_def by (intro sum_list_mono) (auto simp: free_count_le)
  also have "\<dots> = 4 * length (all_boxes cfg)" by (simp add: sum_list_triv)
  finally have "int (free_bits cfg g) \<le> 4 * int (length (all_boxes cfg))" by simp
  then show ?thesis using assms by (simp add: length_all_boxes)
qed

lemma last_segment_added:
  "\<exists>x y. last_segment (added cfg g d i j p) = Some (x, y, p) \<and>
         (in_scope cfg i j \<longrightarrow> in_scope cfg x y)"
  by (cases d) (auto simp: added_def Let_def)

lemma wf_game_last_segment:
  assumes "wf_game cfg g" and "last_segment g \<noteq> None"
  obtains i j q where "last_segment g = Some (i, j, q)" and "in_scope cfg i j"
  using assms by (cases "last_segment g") (auto simp: wf_game_def box_inv_def)

lemma open_boxes_2_for_wf:
  assumes "wf_game cfg g" and "last_segment g \<noteq> None" and "set ds \<subseteq> set directions"
    and "player \<noteq> '' ''"
  shows "\<exists>g' n. open_boxes_2_for cfg player g count ds = Inr (g', count + int n) \<and>
           wf_game cfg g' \<and> last_segment g' \<noteq> None \<and> free_bits cfg g' + n \<le> free_bits cfg g"
  using assms
proof (induction ds arbitrary: g count)
  case Nil
  then show ?case by (intro exI [of _ g] exI [of _ 0]) simp
next
  case (Cons d ds)
  obtain i j q where ls: "last_segment g = Some (i, j, q)" and sc: "in_scope cfg i j"
    using Cons.prems(1,2) by (rule wf_game_last_segment)
  obtain d0 d1 d2 d3 where d: "d = (d0, d1, d2, d3)" by (cases d)
  have dd: "(d0, d1, d2, d3) \<in> set directions" and ds: "set ds \<subseteq> set directions"
    using Cons.prems(3) d by auto
  note add = add_segment_in_scope [OF wf_game_shape [OF Cons.prems(1)] sc, of d player]
  show ?case
  proof (cases "bits_at g i j AND d0 = 0")
    case False
    then have "open_boxes_2_for cfg player g count (d # ds) = open_boxes_2_for cfg player g count ds"
      using ls add d by (simp add: ebind_def)
    then show ?thesis using Cons.IH [OF Cons.prems(1,2) ds Cons.prems(4)] by simp
  next
    case True
    let ?g1 = "added cfg g (d0, d1, d2, d3) i j player"
    have step: "open_boxes_2_for cfg player g count (d # ds) =
        open_boxes_2_for cfg player ?g1 (count + 1) ds"
      using ls add d True by (simp add: ebind_def)
    have wf1: "wf_game cfg ?g1"
      using Cons.prems(1) sc dd True Cons.prems(4) by (rule wf_game_added)
    have ls1: "last_segment ?g1 \<noteq> None"
      using last_segment_added [of cfg g "(d0, d1, d2, d3)" i j player] by auto
    have less: "free_bits cfg ?g1 < free_bits cfg g"
      using Cons.prems(1) sc dd True by (rule free_bits_added)
    obtain g' n where r: "open_boxes_2_for cfg player ?g1 (count + 1) ds = Inr (g', count + 1 + int n)"
      "wf_game cfg g'" "last_segment g' \<noteq> None" "free_bits cfg g' + n \<le> free_bits cfg ?g1"
      using Cons.IH [OF wf1 ls1 ds Cons.prems(4), of "count + 1"] by blast
    show ?thesis
    proof (intro exI [of _ g'] exI [of _ "Suc n"] conjI)
      show "open_boxes_2_for cfg player g count (d # ds) = Inr (g', count + int (Suc n))"
        using step r(1) by simp
      show "free_bits cfg g' + Suc n \<le> free_bits cfg g" using r(4) less by simp
    qed (use r in simp_all)
  qed
qed

lemma open_boxes_2_while_wf:
  assumes "wf_game cfg g" and "last_segment g \<noteq> None" and "player \<noteq> '' ''"
    and "free_bits cfg g \<le> n"
  shows "\<exists>v. open_boxes_2_while cfg player g count s = Some (Inr v) \<and>
           s \<le> v \<and> v \<le> s + int n + 1"
  using assms
proof (induction n arbitrary: g count s rule: less_induct)
  case (less n)
  show ?case
  proof (cases "count = 1")
    case False
    then show ?thesis by (subst open_boxes_2_while.simps) simp
  next
    case True
    obtain g' k where r: "open_boxes_2_for cfg player g 0 directions = Inr (g', 0 + int k)"
      "wf_game cfg g'" "last_segment g' \<noteq> None" "free_bits cfg g' + k \<le> free_bits cfg g"
      using open_boxes_2_for_wf [OF less.prems(1,2) subset_refl less.prems(3), of 0] by blast
    have unfold: "open_boxes_2_while cfg player g count s =
        open_boxes_2_while cfg player g' (int k) (s + 1)"
      using True r(1) by (subst open_boxes_2_while.simps) simp
    show ?thesis
    proof (cases "k = 1")
      case False
      then have "open_boxes_2_while cfg player g' (int k) (s + 1) = Some (Inr (s + 1))"
        by (subst open_boxes_2_while.simps) simp
      then show ?thesis unfolding unfold by simp
    next
      case k1: True
      then have lt: "free_bits cfg g' < n" using r(4) less.prems(4) by simp
      obtain v where v: "open_boxes_2_while cfg player g' (int k) (s + 1) = Some (Inr v)"
        "s + 1 \<le> v" "v \<le> s + 1 + int (free_bits cfg g') + 1"
        using less.IH [OF lt r(2,3) less.prems(3) order_refl, of "int k" "s + 1"] by blast
      then show ?thesis unfolding unfold using lt by auto
    qed
  qed
qed

lemma open_boxes_2_wf:
  assumes "wf_game cfg g" and "last_segment g \<noteq> None" and "player \<noteq> '' ''"
  shows "\<exists>v. open_boxes_2 cfg g player = Some (Inr v) \<and>
           score_of cfg g player \<le> v \<and> v \<le> score_of cfg g player + int (free_bits cfg g) + 1"
  unfolding open_boxes_2_def Let_def score_of_def
  by (rule open_boxes_2_while_wf [OF assms order_refl])

lemma open_boxes_2_while_no_segment:
  assumes "last_segment g = None"
  shows "open_boxes_2_while cfg player g count s =
           (if count = 1 then Some (Inl TypeError) else Some (Inr s))"
  by (subst open_boxes_2_while.simps) (simp add: assms directions_def)

lemma open_boxes_2_no_segment:
  assumes "last_segment g = None"
  shows "open_boxes_2 cfg g player = Some (Inl TypeError) \<or>
         open_boxes_2 cfg g player = Some (Inr (score_of cfg g player))"
  unfolding open_boxes_2_def Let_def score_of_def open_boxes_2_while_no_segment [OF assms]
  by simp

lemma open_boxes_bounds:
  assumes wf: "wf_game cfg g" and p: "player \<noteq> '' ''"
    and res: "open_boxes cfg g player = Some (Inr a)"
    and var: "VAR cfg \<noteq> 1"
  shows "score_of cfg g player \<le> a \<and> a \<le> score_of cfg g player + int (free_bits cfg g) + 1"
proof (cases "last_segment g = None")
  case True
  then show ?thesis
    using open_boxes_2_no_segment [OF True, of cfg player] res var by (auto simp: open_boxes_def)
next
  case False
  then show ?thesis
    using open_boxes_2_wf [OF wf False p] res var by (auto simp: open_boxes_def)
qed

lemma valid_config_boxes:
  assumes "valid_config cfg"
  shows "LINES cfg * COLUMNS cfg \<le> 49"
proof -
  have "LINES cfg * COLUMNS cfg \<le> 7 * 7"
    using valid_config_dims [OF assms] by (intro mult_mono) auto
  then show ?thesis by simp
qed

lemma heuristic_dominated:
  assumes v: "valid_config cfg" and wf: "wf_game cfg g"
    and a: "open_boxes cfg g (MAX_sym cfg) = Some (Inr a)"
    and b: "open_boxes cfg g (MIN_sym cfg) = Some (Inr b)"
  shows "- 100000 < a - b \<and> a - b < 100000"
proof -
  have inv: "box_inv cfg g" using wf by (simp add: wf_game_def)
  note dims = valid_config_dims [OF v]
  have nonneg: "0 \<le> score_min g" "0 \<le> score_max g"
    and sum: "score_min g + score_max g = owned_boxes cfg g"
    using inv by (simp_all add: box_inv_def)
  have "owned_boxes cfg g \<le> LINES cfg * COLUMNS cfg"
    using dims by (intro owned_boxes_le) auto
  then have le49: "score_min g + score_max g \<le> 49"
    using sum valid_config_boxes [OF v] by simp
  have sc: "score_of cfg g (MAX_sym cfg) = score_max g" "score_of cfg g (MIN_sym cfg) = score_min g"
    using valid_config_players(3) [OF v] by (auto simp: score_of_def)
  show ?thesis
  proof (cases "VAR cfg = 1")
    case True
    then have "a = LINES cfg * COLUMNS cfg - score_min g" "b = LINES cfg * COLUMNS cfg - score_max g"
      using a b valid_config_players(3) [OF v] by (auto simp: open_boxes_def open_boxes_1_def)
    then show ?thesis using nonneg le49 by simp
  next
    case False
    have fb: "int (free_bits cfg g) \<le> 196"
      using free_bits_le [of cfg g] valid_config_boxes [OF v] dims by simp
    have "score_max g \<le> a \<and> a \<le> score_max g + int (free_bits cfg g) + 1"
      using open_boxes_bounds [OF wf valid_config_players(2) [OF v] a False] sc by simp
    moreover have "score_min g \<le> b \<and> b \<le> score_min g + int (free_bits cfg g) + 1"
      using open_boxes_bounds [OF wf valid_config_players(1) [OF v] b False] sc by simp
    ultimately show ?thesis using nonneg le49 fb by simp
  qed
qed

lemma open_boxes_returns:
  assumes v: "valid_config cfg" and wf: "wf_game cfg g"
    and ok: "VAR cfg = 1 \<or> last_segment g \<noteq> None"
    and p: "player = MIN_sym cfg \<or> player = MAX_sym cfg"
  shows "\<exists>a. open_boxes cfg g player = Some (Inr a)"
proof (cases "VAR cfg = 1")
  case True
  then show ?thesis by (simp add: open_boxes_def)
next
  case False
  have pl: "player \<noteq> '' ''" using p valid_config_players(1,2) [OF v] by auto
  have ls: "last_segment g \<noteq> None" using ok False by simp
  show ?thesis
    using open_boxes_2_wf [OF wf ls pl] False by (auto simp: open_boxes_def)
qed

section \<open>Claims about the evaluator\<close>

text \<open>
  Claim C7. A state is terminal (\<^verbatim>\<open>final\<close> is truthy) exactly when the two scores add up to
  LINES * COLUMNS. \<^verbatim>\<open>estimate_score\<close> returns 100000 when it is terminal and MAX has the
  larger score, -100000 when MIN has, 0 when the scores are equal, and the difference of
  \<^verbatim>\<open>open_boxes\<close> for MAX and for MIN otherwise. In a reachable state that is not terminal,
  every value the evaluator returns lies strictly between -100000 and 100000, under both
  settings of \<^verbatim>\<open>VAR\<close>, and it does return a value when \<^verbatim>\<open>VAR\<close> is 1 or a segment has been
  drawn.
\<close>

theorem estimate_score_values:
  assumes v: "valid_config cfg"
  shows "(truthy (final cfg g) \<longleftrightarrow> score_sum g = LINES cfg * COLUMNS cfg) \<and>
         (score_sum g = LINES cfg * COLUMNS cfg \<and> score_min g < score_max g \<longrightarrow>
            estimate_score cfg g = Some (Inr 100000)) \<and>
         (score_sum g = LINES cfg * COLUMNS cfg \<and> score_max g < score_min g \<longrightarrow>
            estimate_score cfg g = Some (Inr (- 100000))) \<and>
         (score_sum g = LINES cfg * COLUMNS cfg \<and> score_min g = score_max g \<longrightarrow>
            estimate_score cfg g = Some (Inr 0)) \<and>
         (score_sum g \<noteq> LINES cfg * COLUMNS cfg \<longrightarrow>
            estimate_score cfg g =
              rbind (open_boxes cfg g (MAX_sym cfg)) (\<lambda>a.
              rbind (open_boxes cfg g (MIN_sym cfg)) (\<lambda>b. Some (Inr (a - b))))) \<and>
         (reachable cfg g \<and> score_sum g \<noteq> LINES cfg * COLUMNS cfg \<longrightarrow>
            (\<forall>h. estimate_score cfg g = Some (Inr h) \<longrightarrow> - 100000 < h \<and> h < 100000) \<and>
            (VAR cfg = 1 \<or> last_segment g \<noteq> None \<longrightarrow>
               (\<exists>h. estimate_score cfg g = Some (Inr h))))"
proof -
  note pl = valid_config_players [OF v]
  have syms: "MIN_sym cfg \<noteq> ''tie''" "MAX_sym cfg \<noteq> ''tie''" "MIN_sym cfg \<noteq> []" "MAX_sym cfg \<noteq> []"
    using v by (auto simp: valid_config_def)
  have terminal: "truthy (final cfg g) \<longleftrightarrow> score_sum g = LINES cfg * COLUMNS cfg"
    using syms by (simp add: truthy_def final_def score_sum_def)
  have max_wins: "estimate_score cfg g = Some (Inr 100000)"
    if "score_sum g = LINES cfg * COLUMNS cfg \<and> score_min g < score_max g"
    using that by (simp add: estimate_score_def final_def score_sum_def Let_def)
  have min_wins: "estimate_score cfg g = Some (Inr (- 100000))"
    if "score_sum g = LINES cfg * COLUMNS cfg \<and> score_max g < score_min g"
    using that pl(3) by (simp add: estimate_score_def final_def score_sum_def Let_def)
  have tie: "estimate_score cfg g = Some (Inr 0)"
    if "score_sum g = LINES cfg * COLUMNS cfg \<and> score_min g = score_max g"
    using that syms by (simp add: estimate_score_def final_def score_sum_def Let_def)
  have heur_eq: "estimate_score cfg g =
      rbind (open_boxes cfg g (MAX_sym cfg)) (\<lambda>a.
      rbind (open_boxes cfg g (MIN_sym cfg)) (\<lambda>b. Some (Inr (a - b))))"
    if "score_sum g \<noteq> LINES cfg * COLUMNS cfg"
    using that by (simp add: estimate_score_def final_def score_sum_def Let_def)
  have heur: "(\<forall>h. estimate_score cfg g = Some (Inr h) \<longrightarrow> - 100000 < h \<and> h < 100000) \<and>
      (VAR cfg = 1 \<or> last_segment g \<noteq> None \<longrightarrow> (\<exists>h. estimate_score cfg g = Some (Inr h)))"
    if "reachable cfg g \<and> score_sum g \<noteq> LINES cfg * COLUMNS cfg"
  proof -
    have wf: "wf_game cfg g" using v that by (simp add: reachable_wf)
    note est = heur_eq [OF that [THEN conjunct2]]
    have bound: "- 100000 < h \<and> h < 100000" if h: "estimate_score cfg g = Some (Inr h)" for h
    proof -
      obtain a b where ab: "open_boxes cfg g (MAX_sym cfg) = Some (Inr a)"
        "open_boxes cfg g (MIN_sym cfg) = Some (Inr b)" "h = a - b"
        using h unfolding est by (auto simp: rbind_def split: option.splits sum.splits)
      show ?thesis unfolding ab(3) using v wf ab(1,2) by (rule heuristic_dominated)
    qed
    have total: "\<exists>h. estimate_score cfg g = Some (Inr h)"
      if ok: "VAR cfg = 1 \<or> last_segment g \<noteq> None"
    proof -
      obtain a where a: "open_boxes cfg g (MAX_sym cfg) = Some (Inr a)"
        using open_boxes_returns [OF v wf ok, of "MAX_sym cfg"] by auto
      obtain b where b: "open_boxes cfg g (MIN_sym cfg) = Some (Inr b)"
        using open_boxes_returns [OF v wf ok, of "MIN_sym cfg"] by auto
      show ?thesis unfolding est by (simp add: a b rbind_def)
    qed
    show ?thesis using bound total by blast
  qed
  show ?thesis using terminal max_wins min_wins tie heur_eq heur by blast
qed

lemma reachable_game_12_first: "reachable cfg12 game_12_first"
proof -
  have "add_segment cfg12 (Game_init cfg12) dir_up 0 0 ''X'' = Inr (Some game_12_first)"
    by (simp add: eval_defs Game_init_def cfg12_def game_12_first_def eval_nat_numeral)
  then show ?thesis
    by (intro reachable_add_segment [OF reachable.start, of "''X''" cfg12 0 0 dir_up])
      (simp_all add: cfg12_def in_scope_def directions_def)
qed

theorem estimate_score_values_witness:
  "valid_config cfg11 \<and> score_sum game_11_closed = LINES cfg11 * COLUMNS cfg11 \<and>
   score_min game_11_closed < score_max game_11_closed \<and>
   truthy (final cfg11 game_11_closed) \<and>
   estimate_score cfg11 game_11_closed = Some (Inr 100000) \<and>
   valid_config cfg12 \<and> reachable cfg12 game_12_first \<and>
   score_sum game_12_first \<noteq> LINES cfg12 * COLUMNS cfg12 \<and>
   last_segment game_12_first \<noteq> None \<and>
   (\<exists>h. estimate_score cfg12 game_12_first = Some (Inr h) \<and> - 100000 < h \<and> h < 100000)"
proof -
  have t: "score_sum game_11_closed = LINES cfg11 * COLUMNS cfg11"
    "score_min game_11_closed < score_max game_11_closed"
    by (simp_all add: score_sum_def game_11_closed_def cfg11_def)
  have n: "score_sum game_12_first \<noteq> LINES cfg12 * COLUMNS cfg12"
    "last_segment game_12_first \<noteq> None"
    by (simp_all add: score_sum_def game_12_first_def cfg12_def)
  note a = estimate_score_values [OF valid_cfg11, of game_11_closed]
  note b = estimate_score_values [OF valid_cfg12, of game_12_first]
  have "truthy (final cfg11 game_11_closed)"
    "estimate_score cfg11 game_11_closed = Some (Inr 100000)"
    using a t by blast+
  moreover have "\<exists>h. estimate_score cfg12 game_12_first = Some (Inr h) \<and> - 100000 < h \<and> h < 100000"
    using b n reachable_game_12_first by blast
  ultimately show ?thesis
    using t n valid_cfg11 valid_cfg12 reachable_game_12_first by blast
qed

section \<open>The leaves of the search\<close>

declare min_max.simps [simp del] alpha_beta.simps [simp del] alpha_beta_state.simps [simp del]

lemma estimate_score_terminal:
  assumes "truthy (final cfg g)"
  shows "\<exists>h. estimate_score cfg g = Some (Inr h)"
proof -
  have "final cfg g = PyStr ''tie'' \<or> final cfg g = PyStr (MIN_sym cfg) \<or>
      final cfg g = PyStr (MAX_sym cfg)"
    using assms by (auto simp: final_def truthy_def split: if_splits)
  then show ?thesis by (auto simp: estimate_score_def Let_def)
qed

lemma estimate_score_returns:
  assumes v: "valid_config cfg" and wf: "wf_game cfg g"
    and ok: "VAR cfg = 1 \<or> last_segment g \<noteq> None"
  shows "\<exists>h. estimate_score cfg g = Some (Inr h)"
proof -
  obtain a where a: "open_boxes cfg g (MAX_sym cfg) = Some (Inr a)"
    using open_boxes_returns [OF v wf ok, of "MAX_sym cfg"] by auto
  obtain b where b: "open_boxes cfg g (MIN_sym cfg) = Some (Inr b)"
    using open_boxes_returns [OF v wf ok, of "MIN_sym cfg"] by auto
  show ?thesis by (simp add: estimate_score_def Let_def a b rbind_def)
qed

lemma min_max_leaf:
  assumes "depth st = 0 \<or> truthy (final cfg (game st))"
  shows "min_max cfg st =
           rbind (estimate_score cfg (game st)) (\<lambda>v. Some (Inr (set_score (Some v) st)))"
  using assms by (subst min_max.simps) simp

lemma alpha_beta_leaf:
  assumes "depth st = 0 \<or> truthy (final cfg (game st))"
  shows "alpha_beta cfg alpha beta st =
           rbind (estimate_score cfg (game st)) (\<lambda>v. Some (Inr (set_score (Some v) st)))"
  using assms by (subst alpha_beta.simps) simp

text \<open>
  Claim C9 does not hold of the code. With the default policy (\<^verbatim>\<open>VAR = 2\<close>) a search at
  depth 0 on the game in which no segment has been drawn raises \<^verbatim>\<open>TypeError\<close> instead of
  returning the static score: the state is not terminal, \<^verbatim>\<open>estimate_score\<close> calls
  \<^verbatim>\<open>open_boxes_2\<close>, and that subscripts the board with the \<^verbatim>\<open>None\<close> coordinates which the
  constructor stores in \<^verbatim>\<open>last_segment\<close>. Under the other policy (\<^verbatim>\<open>VAR = 1\<close>) the same
  call returns the state with score 0, children and chosen child untouched.
\<close>

theorem depth_zero_fresh_game_raises:
  "valid_config cfg12 \<and> reachable cfg12 (Game_init cfg12) \<and>
   depth (State_init (Game_init cfg12) ''X'' 0) = 0 \<and>
   \<not> truthy (final cfg12 (Game_init cfg12)) \<and>
   estimate_score cfg12 (Game_init cfg12) = Some (Inl TypeError) \<and>
   min_max cfg12 (State_init (Game_init cfg12) ''X'' 0) = Some (Inl TypeError) \<and>
   alpha_beta cfg12 (- 5000) 5000 (State_init (Game_init cfg12) ''X'' 0) = Some (Inl TypeError) \<and>
   estimate_score (cfg12\<lparr>VAR := 1\<rparr>) (Game_init cfg12) = Some (Inr 0) \<and>
   min_max (cfg12\<lparr>VAR := 1\<rparr>) (State_init (Game_init cfg12) ''X'' 0) =
     Some (Inr (set_score (Some 0) (State_init (Game_init cfg12) ''X'' 0)))"
proof -
  have "min_max cfg12 (State_init (Game_init cfg12) ''X'' 0) = Some (Inl TypeError)"
    by code_simp
  moreover have "alpha_beta cfg12 (- 5000) 5000 (State_init (Game_init cfg12) ''X'' 0) =
      Some (Inl TypeError)"
    by code_simp
  moreover have "\<not> truthy (final cfg12 (Game_init cfg12))"
    by code_simp
  moreover have "estimate_score cfg12 (Game_init cfg12) = Some (Inl TypeError)"
    by code_simp
  moreover have "estimate_score (cfg12\<lparr>VAR := 1\<rparr>) (Game_init cfg12) = Some (Inr 0)"
    by code_simp
  moreover have "min_max (cfg12\<lparr>VAR := 1\<rparr>) (State_init (Game_init cfg12) ''X'' 0) =
     Some (Inr (set_score (Some 0) (State_init (Game_init cfg12) ''X'' 0)))"
    by code_simp
  ultimately show ?thesis
    using valid_cfg12 reachable.start [of cfg12] by (simp add: State_init_def)
qed

text \<open>
  Every other leaf evaluates. A search (minimax, or alpha-beta with any window) on a state
  that is terminal, or that has depth 0 and a reachable game in which a segment has been
  drawn (or the policy is \<^verbatim>\<open>VAR = 1\<close>), returns without raising: the returned state carries
  the static evaluation as its score, and its game, its children and its chosen child are
  those of the state passed in.
\<close>

lemma search_leaf:
  assumes v: "valid_config cfg"
    and leaf: "truthy (final cfg (game st)) \<or>
       (depth st = 0 \<and> reachable cfg (game st) \<and> (VAR cfg = 1 \<or> last_segment (game st) \<noteq> None))"
  shows "\<exists>h r. estimate_score cfg (game st) = Some (Inr h) \<and>
           min_max cfg st = Some (Inr r) \<and> alpha_beta cfg alpha beta st = Some (Inr r) \<and>
           score r = Some h \<and> game r = game st \<and>
           possible_moves r = possible_moves st \<and> next_state r = next_state st"
proof -
  have "\<exists>h. estimate_score cfg (game st) = Some (Inr h)"
  proof (cases "truthy (final cfg (game st))")
    case True
    then show ?thesis by (rule estimate_score_terminal)
  next
    case False
    then have "reachable cfg (game st)" and ok: "VAR cfg = 1 \<or> last_segment (game st) \<noteq> None"
      using leaf by simp_all
    then have "wf_game cfg (game st)" using v by (simp add: reachable_wf)
    then show ?thesis using v ok by (intro estimate_score_returns)
  qed
  then obtain h where h: "estimate_score cfg (game st) = Some (Inr h)" by blast
  have l: "depth st = 0 \<or> truthy (final cfg (game st))" using leaf by blast
  have "min_max cfg st = Some (Inr (set_score (Some h) st))"
    "alpha_beta cfg alpha beta st = Some (Inr (set_score (Some h) st))"
    unfolding min_max_leaf [OF l] alpha_beta_leaf [OF l] h rbind_def by simp_all
  then show ?thesis using h by simp
qed

lemma search_leaf_example:
  "valid_config cfg12 \<and> depth (State_init game_12_first ''O'' 0) = 0 \<and>
   reachable cfg12 (game (State_init game_12_first ''O'' 0)) \<and>
   last_segment (game (State_init game_12_first ''O'' 0)) \<noteq> None \<and>
   (\<exists>h r. estimate_score cfg12 game_12_first = Some (Inr h) \<and>
      min_max cfg12 (State_init game_12_first ''O'' 0) = Some (Inr r) \<and>
      alpha_beta cfg12 (- 5000) 5000 (State_init game_12_first ''O'' 0) = Some (Inr r) \<and>
      score r = Some h \<and> possible_moves r = [] \<and> next_state r = None)"
proof -
  let ?st = "State_init game_12_first ''O'' 0"
  have g: "game ?st = game_12_first" "depth ?st = 0" "possible_moves ?st = []"
    "next_state ?st = None"
    by (simp_all add: State_init_def)
  have ls: "last_segment (game ?st) \<noteq> None" unfolding g by (simp add: game_12_first_def)
  have r: "reachable cfg12 (game ?st)" unfolding g by (rule reachable_game_12_first)
  have leaf: "truthy (final cfg12 (game ?st)) \<or>
      (depth ?st = 0 \<and> reachable cfg12 (game ?st) \<and>
       (VAR cfg12 = 1 \<or> last_segment (game ?st) \<noteq> None))"
    using r ls g(2) by simp
  from search_leaf [OF valid_cfg12 leaf, of "- 5000" 5000]
  show ?thesis using valid_cfg12 r ls unfolding g by auto
qed

section \<open>Alpha-beta against minimax\<close>

lemma returned_simps [simp]:
  "returned None = None" "returned (Some (Inl e)) = None" "returned (Some (Inr x)) = Some x"
  by (simp_all add: returned_def)

lemma returned_rbind:
  "returned (rbind m f) = (case returned m of None \<Rightarrow> None | Some x \<Rightarrow> returned (f x))"
  by (auto simp: rbind_def returned_def split: option.splits sum.splits)

lemma returned_Some: "returned r = Some x \<longleftrightarrow> r = Some (Inr x)"
  by (simp add: returned_def split: option.splits sum.splits)

lemma returned_rtraverse_Cons:
  "returned (rtraverse f (x # xs)) =
     (case returned (f x) of None \<Rightarrow> None
      | Some y \<Rightarrow> map_option ((#) y) (returned (rtraverse f xs)))"
  by (auto simp: rbind_def returned_def split: option.splits sum.splits)

lemma rtraverse_results:
  "rtraverse f xs = Some (Inr ys) \<Longrightarrow> list_all2 (\<lambda>x y. f x = Some (Inr y)) xs ys"
proof (induction xs arbitrary: ys)
  case Nil
  then show ?case by simp
next
  case (Cons x xs)
  then show ?case by (auto simp: rbind_def split: option.splits sum.splits)
qed

lemma py_max_from_mem: "py_max_from best ms = Inr nx \<Longrightarrow> nx = best \<or> nx \<in> set ms"
  by (induction ms arbitrary: best) (auto simp: ebind_def split: sum.splits if_splits)

lemma py_min_from_mem: "py_min_from best ms = Inr nx \<Longrightarrow> nx = best \<or> nx \<in> set ms"
  by (induction ms arbitrary: best) (auto simp: ebind_def split: sum.splits if_splits)

lemma py_max_mem: "py_max ms = Inr nx \<Longrightarrow> nx \<in> set ms"
  using py_max_from_mem by (cases ms) (auto simp: py_max_def)

lemma py_min_mem: "py_min ms = Inr nx \<Longrightarrow> nx \<in> set ms"
  using py_min_from_mem by (cases ms) (auto simp: py_min_def)

lemma min_max_internal:
  assumes "\<not> (depth st = 0 \<or> truthy (final cfg (game st)))" and "moves_State cfg st = Inr pm"
  shows "min_max cfg st =
           rbind (rtraverse (min_max cfg) pm) (\<lambda>ms.
           rbind (lift (if current_player st = MAX_sym cfg then py_max ms else py_min ms)) (\<lambda>nx.
             Some (Inr (set_score (score nx)
               (set_next_state (Some nx) (set_possible_moves ms st))))))"
  using assms by (subst min_max.simps) (simp add: rbind_def lift_def)

lemma min_max_scored:
  "min_max cfg st = Some (Inr r) \<Longrightarrow> \<exists>s. score r = Some s"
proof (induction cfg st arbitrary: r rule: min_max.induct)
  case (1 cfg st)
  show ?case
  proof (cases "depth st = 0 \<or> truthy (final cfg (game st))")
    case True
    then show ?thesis
      using "1.prems" unfolding min_max_leaf [OF True]
      by (auto simp: rbind_def split: option.splits sum.splits)
  next
    case False
    obtain pm where pm: "moves_State cfg st = Inr pm"
      using "1.prems" False
      by (subst (asm) min_max.simps) (auto simp: rbind_def lift_def split: option.splits sum.splits)
    from "1.prems" obtain ms nx where ms: "rtraverse (min_max cfg) pm = Some (Inr ms)"
      and nx: "(if current_player st = MAX_sym cfg then py_max ms else py_min ms) = Inr nx"
      and r: "r = set_score (score nx) (set_next_state (Some nx) (set_possible_moves ms st))"
      unfolding min_max_internal [OF False pm]
      by (auto simp: rbind_def lift_def split: option.splits sum.splits)
    have "nx \<in> set ms" using nx py_max_mem py_min_mem by (auto split: if_splits)
    then obtain i where i: "i < length ms" "ms ! i = nx" by (auto simp: in_set_conv_nth)
    have all2: "list_all2 (\<lambda>x y. min_max cfg x = Some (Inr y)) pm ms"
      using ms by (rule rtraverse_results)
    have "pm ! i \<in> set pm" "min_max cfg (pm ! i) = Some (Inr nx)"
      using i list_all2_lengthD [OF all2] list_all2_nthD2 [OF all2 i(1)] by simp_all
    then obtain c where "c \<in> set pm" "min_max cfg c = Some (Inr nx)" by blast
    then have "\<exists>s. score nx = Some s"
      using "1.IH" [OF False, of pm c nx] pm by (simp add: lift_def)
    then show ?thesis unfolding r by simp
  qed
qed

lemma set_next_state_same [simp]: "set_next_state (next_state st) st = st"
  by (cases st) (simp add: set_next_state_def)

lemma set_next_state_twice [simp]: "set_next_state x (set_next_state y st) = set_next_state x st"
  by (simp add: set_next_state_def)

lemma alpha_beta_for_strict:
  assumes ih: "\<And>c a b. c \<in> set todo \<Longrightarrow> a < b \<Longrightarrow>
                 returned (alpha_beta cfg a b c) = returned (min_max cfg c)"
    and lt: "alpha < beta"
  shows "returned (alpha_beta_for cfg alpha beta cs st visited todo) =
           map_option (\<lambda>ms. set_possible_moves (visited @ ms)
                               (set_next_state (pick cfg st cs ms) st))
             (returned (rtraverse (min_max cfg) todo))"
  using assms
proof (induction todo arbitrary: alpha beta cs st visited)
  case Nil
  then show ?case by (simp add: pick_def)
next
  case (Cons move rest)
  have same: "returned (alpha_beta cfg alpha beta move) = returned (min_max cfg move)"
    using Cons.prems by simp
  show ?case
  proof (cases "returned (min_max cfg move)")
    case None
    then show ?thesis
      using same by (simp add: returned_rbind returned_rtraverse_Cons)
  next
    case (Some new)
    then have mm: "min_max cfg move = Some (Inr new)" by (simp add: returned_Some)
    have ab: "alpha_beta cfg alpha beta move = Some (Inr new)"
      using same Some by (simp add: returned_Some)
    obtain s where s: "score new = Some s" using min_max_scored [OF mm] by blast
    have ih': "\<And>c a b. c \<in> set rest \<Longrightarrow> a < b \<Longrightarrow>
        returned (alpha_beta cfg a b c) = returned (min_max cfg c)"
      using Cons.prems(1) by simp
    show ?thesis
    proof (cases "current_player st = MAX_sym cfg")
      case True
      let ?better = "bound_less cs s"
      let ?st' = "if ?better then set_next_state (Some new) st else st"
      let ?cs' = "if ?better then Val s else cs"
      have lt': "min alpha s < beta" using Cons.prems(2) by simp
      have step: "alpha_beta_for cfg alpha beta cs st visited (move # rest) =
          alpha_beta_for cfg (min alpha s) beta ?cs' ?st' (visited @ [new]) rest"
        using True Cons.prems(2) by (auto simp: ab s rbind_def Let_def)
      have cp: "current_player ?st' = MAX_sym cfg" using True by simp
      have rec: "returned (alpha_beta_for cfg (min alpha s) beta ?cs' ?st' (visited @ [new]) rest) =
          map_option (\<lambda>ms. set_possible_moves ((visited @ [new]) @ ms)
                               (set_next_state (pick cfg ?st' ?cs' ms) ?st'))
            (returned (rtraverse (min_max cfg) rest))"
        using ih' lt' by (rule Cons.IH)
      have pk: "set_next_state (pick cfg ?st' ?cs' ms) ?st' =
          set_next_state (pick cfg st cs (new # ms)) st" for ms
        using True s by (simp add: pick_def)
      show ?thesis
        unfolding step rec pk returned_rtraverse_Cons mm
        by (cases "returned (rtraverse (min_max cfg) rest)") simp_all
    next
      case False
      let ?better = "bound_greater cs s"
      let ?st' = "if ?better then set_next_state (Some new) st else st"
      let ?cs' = "if ?better then Val s else cs"
      have lt': "alpha < max beta s" using Cons.prems(2) by simp
      have step: "alpha_beta_for cfg alpha beta cs st visited (move # rest) =
          alpha_beta_for cfg alpha (max beta s) ?cs' ?st' (visited @ [new]) rest"
        using False Cons.prems(2) by (auto simp: ab s rbind_def Let_def)
      have cp: "current_player ?st' \<noteq> MAX_sym cfg" using False by simp
      have rec: "returned (alpha_beta_for cfg alpha (max beta s) ?cs' ?st' (visited @ [new]) rest) =
          map_option (\<lambda>ms. set_possible_moves ((visited @ [new]) @ ms)
                               (set_next_state (pick cfg ?st' ?cs' ms) ?st'))
            (returned (rtraverse (min_max cfg) rest))"
        using ih' lt' by (rule Cons.IH)
      have pk: "set_next_state (pick cfg ?st' ?cs' ms) ?st' =
          set_next_state (pick cfg st cs (new # ms)) st" for ms
        using False s by (simp add: pick_def)
      show ?thesis
        unfolding step rec pk returned_rtraverse_Cons mm
        by (cases "returned (rtraverse (min_max cfg) rest)") simp_all
    qed
  qed
qed

lemma pick_max_py_max_from:
  assumes "\<forall>m\<in>set ms. \<exists>s. score m = Some s" and "score best = Some s0"
  shows "\<exists>r. py_max_from best ms = Inr r \<and> pick_max (Val s0) (Some best) ms = Some r"
  using assms
proof (induction ms arbitrary: best s0)
  case Nil
  then show ?case by simp
next
  case (Cons m ms)
  then obtain s where s: "score m = Some s" by auto
  show ?case
  proof (cases "s > s0")
    case True
    then show ?thesis
      using Cons.IH [of m s] Cons.prems s
      by (simp add: ebind_def score_gt_def bound_less_def)
  next
    case False
    then show ?thesis
      using Cons.IH [of best s0] Cons.prems s
      by (simp add: ebind_def score_gt_def bound_less_def)
  qed
qed

lemma pick_min_py_min_from:
  assumes "\<forall>m\<in>set ms. \<exists>s. score m = Some s" and "score best = Some s0"
  shows "\<exists>r. py_min_from best ms = Inr r \<and> pick_min (Val s0) (Some best) ms = Some r"
  using assms
proof (induction ms arbitrary: best s0)
  case Nil
  then show ?case by simp
next
  case (Cons m ms)
  then obtain s where s: "score m = Some s" by auto
  show ?case
  proof (cases "s0 > s")
    case True
    then show ?thesis
      using Cons.IH [of m s] Cons.prems s
      by (simp add: ebind_def score_gt_def bound_greater_def)
  next
    case False
    then show ?thesis
      using Cons.IH [of best s0] Cons.prems s
      by (simp add: ebind_def score_gt_def bound_greater_def)
  qed
qed

lemma pick_first:
  assumes "\<forall>m\<in>set ms. \<exists>s. score m = Some s" and "ms \<noteq> []"
  shows "\<exists>r. py_max ms = Inr r \<and> pick_max MinusInf nx ms = Some r"
    and "\<exists>r. py_min ms = Inr r \<and> pick_min PlusInf nx ms = Some r"
proof -
  obtain m rest where ms: "ms = m # rest" using assms(2) by (cases ms) auto
  obtain s where s: "score m = Some s" using assms(1) ms by auto
  show "\<exists>r. py_max ms = Inr r \<and> pick_max MinusInf nx ms = Some r"
    using pick_max_py_max_from [of rest m s] assms(1) s
    by (simp add: ms py_max_def bound_less_def)
  show "\<exists>r. py_min ms = Inr r \<and> pick_min PlusInf nx ms = Some r"
    using pick_min_py_min_from [of rest m s] assms(1) s
    by (simp add: ms py_min_def bound_greater_def)
qed

lemma alpha_beta_internal:
  assumes "\<not> (depth st = 0 \<or> truthy (final cfg (game st)))" and "alpha \<le> beta"
    and "moves_State cfg st = Inr pm"
  shows "alpha_beta cfg alpha beta st =
           rbind (alpha_beta_for cfg alpha beta
                    (if current_player st = MAX_sym cfg then MinusInf else PlusInf)
                    (set_possible_moves pm st) [] pm) (\<lambda>st'.
             case next_state st' of
               None \<Rightarrow> Some (Inl AttributeError)
             | Some nx \<Rightarrow> Some (Inr (set_score (score nx) st')))"
  using assms by (subst alpha_beta.simps) (simp add: rbind_def lift_def alpha_beta_state.simps)

lemma search_moves_error:
  assumes "\<not> (depth st = 0 \<or> truthy (final cfg (game st)))" and "alpha \<le> beta"
    and "moves_State cfg st = Inl e"
  shows "alpha_beta cfg alpha beta st = Some (Inl e)" and "min_max cfg st = Some (Inl e)"
proof -
  show "alpha_beta cfg alpha beta st = Some (Inl e)"
    using assms by (subst alpha_beta.simps) (simp add: rbind_def lift_def)
  show "min_max cfg st = Some (Inl e)"
    using assms by (subst min_max.simps) (simp add: rbind_def lift_def)
qed

lemma moves_State_fresh:
  assumes "moves_State cfg st = Inr pm" and "c \<in> set pm"
  shows "next_state c = None" and "possible_moves c = []" and "score c = None"
  using assms
  by (auto simp: moves_State_def ebind_def child_state_def State_init_def split: sum.splits)

lemma rtraverse_scored:
  assumes "rtraverse (min_max cfg) pm = Some (Inr ms)"
  shows "\<forall>m\<in>set ms. \<exists>s. score m = Some s" and "length ms = length pm"
proof -
  have all2: "list_all2 (\<lambda>x y. min_max cfg x = Some (Inr y)) pm ms"
    using assms by (rule rtraverse_results)
  show "length ms = length pm" using list_all2_lengthD [OF all2] by simp
  show "\<forall>m\<in>set ms. \<exists>s. score m = Some s"
  proof
    fix m assume "m \<in> set ms"
    then obtain i where i: "i < length ms" "ms ! i = m" by (auto simp: in_set_conv_nth)
    have "min_max cfg (pm ! i) = Some (Inr m)" using list_all2_nthD2 [OF all2 i(1)] i(2) by simp
    then show "\<exists>s. score m = Some s" by (rule min_max_scored)
  qed
qed

lemma alpha_beta_strict:
  assumes "alpha < beta" and "next_state st = None"
  shows "returned (alpha_beta cfg alpha beta st) = returned (min_max cfg st)"
  using assms
proof (induction "depth st" arbitrary: st alpha beta rule: less_induct)
  case less
  show ?case
  proof (cases "depth st = 0 \<or> truthy (final cfg (game st))")
    case True
    then show ?thesis by (simp add: min_max_leaf alpha_beta_leaf)
  next
    case False
    have le: "alpha \<le> beta" using less.prems(1) by simp
    show ?thesis
    proof (cases "moves_State cfg st")
      case (Inl e)
      then show ?thesis using search_moves_error [OF False le Inl] by simp
    next
      case (Inr pm)
      let ?cs = "if current_player st = MAX_sym cfg then MinusInf else PlusInf"
      let ?st = "set_possible_moves pm st"
      have ih: "\<And>c a b. c \<in> set pm \<Longrightarrow> a < b \<Longrightarrow>
          returned (alpha_beta cfg a b c) = returned (min_max cfg c)"
      proof -
        fix c :: state and a b :: int
        assume c: "c \<in> set pm" and ab: "a < b"
        have "depth c < depth st" using moves_State_depth [OF Inr c] False by simp
        then show "returned (alpha_beta cfg a b c) = returned (min_max cfg c)"
          using ab moves_State_fresh(1) [OF Inr c] by (rule less.hyps)
      qed
      note loop = alpha_beta_for_strict [OF ih less.prems(1), of pm ?cs ?st "[]"]
      show ?thesis
      proof (cases "returned (rtraverse (min_max cfg) pm)")
        case None
        then show ?thesis
          unfolding alpha_beta_internal [OF False le Inr] min_max_internal [OF False Inr]
          by (simp add: returned_rbind loop)
      next
        case (Some ms)
        then have ms: "rtraverse (min_max cfg) pm = Some (Inr ms)" by (simp add: returned_Some)
        note sc = rtraverse_scored [OF ms]
        have lp: "alpha_beta_for cfg alpha beta ?cs ?st [] pm =
            Some (Inr (set_possible_moves ms (set_next_state (pick cfg ?st ?cs ms) ?st)))"
          using loop Some by (simp add: returned_Some)
        show ?thesis
        proof (cases "ms = []")
          case True
          then show ?thesis
            unfolding alpha_beta_internal [OF False le Inr] min_max_internal [OF False Inr] lp ms
            using less.prems(2)
            by (simp add: rbind_def lift_def pick_def py_max_def py_min_def)
        next
          case ne: False
          show ?thesis
          proof (cases "current_player st = MAX_sym cfg")
            case True
            obtain r where r: "py_max ms = Inr r" "pick_max MinusInf (next_state ?st) ms = Some r"
              using pick_first(1) [OF sc(1) ne] by blast
            show ?thesis
              unfolding alpha_beta_internal [OF False le Inr] min_max_internal [OF False Inr] lp ms
              using True r
              by (simp add: rbind_def lift_def pick_def set_score_def set_next_state_def
                  set_possible_moves_def)
          next
            case False
            obtain r where r: "py_min ms = Inr r" "pick_min PlusInf (next_state ?st) ms = Some r"
              using pick_first(2) [OF sc(1) ne] by blast
            show ?thesis
              unfolding alpha_beta_internal [OF \<open>\<not> (depth st = 0 \<or> truthy (final cfg (game st)))\<close> le Inr]
                min_max_internal [OF \<open>\<not> (depth st = 0 \<or> truthy (final cfg (game st)))\<close> Inr] lp ms
              using False r
              by (simp add: rbind_def lift_def pick_def set_score_def set_next_state_def
                  set_possible_moves_def)
          qed
        qed
      qed
    qed
  qed
qed

lemma rtraverse_total:
  assumes "\<forall>c\<in>set pm. \<exists>m. f c = Some (Inr m)"
  shows "\<exists>ms. rtraverse f pm = Some (Inr ms)"
  using assms
proof (induction pm)
  case Nil
  then show ?case by simp
next
  case (Cons c pm)
  then obtain m ms where "f c = Some (Inr m)" "rtraverse f pm = Some (Inr ms)" by auto
  then show ?case by (simp add: rbind_def)
qed

lemma py_from_equal:
  assumes "\<forall>m\<in>set ms. score m = Some s" and "score best = Some s"
  shows "py_max_from best ms = Inr best" and "py_min_from best ms = Inr best"
  using assms by (induction ms) (simp_all add: ebind_def score_gt_def)

lemma alpha_beta_point_window:
  assumes "leaves_within cfg s s st"
  shows "\<exists>r r'. min_max cfg st = Some (Inr r) \<and> alpha_beta cfg s s st = Some (Inr r') \<and>
           score r = Some s \<and> score r' = Some s \<and> game r = game st \<and> game r' = game st \<and>
           map_option game (next_state r') = map_option game (next_state r)"
  using assms
proof (induction "depth st" arbitrary: st rule: less_induct)
  case less
  show ?case
  proof (cases "depth st = 0 \<or> truthy (final cfg (game st))")
    case True
    then obtain v where "estimate_score cfg (game st) = Some (Inr v)" "s \<le> v" "v \<le> s"
      using less.prems by (subst (asm) leaves_within.simps) (auto split: option.splits sum.splits)
    then have "estimate_score cfg (game st) = Some (Inr s)" by simp
    then show ?thesis by (simp add: min_max_leaf [OF True] alpha_beta_leaf [OF True] rbind_def)
  next
    case False
    obtain pm where pm: "moves_State cfg st = Inr pm" "pm \<noteq> []"
      "\<forall>c\<in>set pm. leaves_within cfg s s c"
      using less.prems False
      by (subst (asm) leaves_within.simps) (auto split: sum.splits)
    have kids: "\<exists>r r'. min_max cfg c = Some (Inr r) \<and> alpha_beta cfg s s c = Some (Inr r') \<and>
        score r = Some s \<and> score r' = Some s \<and> game r = game c \<and> game r' = game c"
      if "c \<in> set pm" for c
    proof -
      have "depth c < depth st" using moves_State_depth [OF pm(1) that] False by simp
      then show ?thesis using less.hyps [of c] pm(3) that by blast
    qed
    obtain c1 rest where cons: "pm = c1 # rest" using pm(2) by (cases pm) auto
    obtain ms where ms: "rtraverse (min_max cfg) pm = Some (Inr ms)"
      using rtraverse_total [of pm "min_max cfg"] kids by blast
    have all2: "list_all2 (\<lambda>x y. min_max cfg x = Some (Inr y)) pm ms"
      using ms by (rule rtraverse_results)
    obtain m1 ms' where mcons: "ms = m1 # ms'" and m1: "min_max cfg c1 = Some (Inr m1)"
      using all2 cons by (cases ms) auto
    have scores: "\<forall>m\<in>set ms. score m = Some s"
    proof
      fix m assume "m \<in> set ms"
      then obtain i where i: "i < length ms" "ms ! i = m" by (auto simp: in_set_conv_nth)
      have "min_max cfg (pm ! i) = Some (Inr m)" "pm ! i \<in> set pm"
        using list_all2_nthD2 [OF all2 i(1)] i list_all2_lengthD [OF all2] by simp_all
      then show "score m = Some s" using kids [of "pm ! i"] by auto
    qed
    have g1: "game m1 = game c1" "score m1 = Some s"
      using kids [of c1] m1 cons by auto
    have best: "(if current_player st = MAX_sym cfg then py_max ms else py_min ms) = Inr m1"
      using py_from_equal [of ms' s m1] scores g1(2) by (simp add: mcons py_max_def py_min_def)
    have mm: "min_max cfg st =
        Some (Inr (set_score (score m1) (set_next_state (Some m1) (set_possible_moves ms st))))"
      unfolding min_max_internal [OF False pm(1)] ms using best
      by (simp add: rbind_def lift_def)
    obtain n1 where n1: "alpha_beta cfg s s c1 = Some (Inr n1)" "score n1 = Some s"
      "game n1 = game c1"
      using kids [of c1] cons by auto
    let ?st = "set_possible_moves pm st"
    have loop: "alpha_beta_for cfg s s
        (if current_player st = MAX_sym cfg then MinusInf else PlusInf) ?st [] pm =
        Some (Inr (set_possible_moves (n1 # rest) (set_next_state (Some n1) ?st)))"
      by (simp add: cons n1 rbind_def Let_def bound_less_def bound_greater_def)
    have ab: "alpha_beta cfg s s st =
        Some (Inr (set_score (score n1)
          (set_possible_moves (n1 # rest) (set_next_state (Some n1) ?st))))"
      unfolding alpha_beta_internal [OF False order_refl pm(1)] loop
      by (simp add: rbind_def)
    show ?thesis unfolding mm ab using g1 n1 by simp
  qed
qed

lemma leaves_within_returns:
  assumes "leaves_within cfg lo hi st"
  shows "\<exists>r. min_max cfg st = Some (Inr r)"
  using assms
proof (induction "depth st" arbitrary: st rule: less_induct)
  case less
  show ?case
  proof (cases "depth st = 0 \<or> truthy (final cfg (game st))")
    case True
    then obtain v where "estimate_score cfg (game st) = Some (Inr v)"
      using less.prems by (subst (asm) leaves_within.simps) (auto split: option.splits sum.splits)
    then show ?thesis by (simp add: min_max_leaf [OF True] rbind_def)
  next
    case False
    obtain pm where pm: "moves_State cfg st = Inr pm" "pm \<noteq> []"
      "\<forall>c\<in>set pm. leaves_within cfg lo hi c"
      using less.prems False
      by (subst (asm) leaves_within.simps) (auto split: sum.splits)
    have "\<exists>m. min_max cfg c = Some (Inr m)" if "c \<in> set pm" for c
    proof -
      have "depth c < depth st" using moves_State_depth [OF pm(1) that] False by simp
      then show ?thesis using less.hyps [of c] pm(3) that by blast
    qed
    then obtain ms where ms: "rtraverse (min_max cfg) pm = Some (Inr ms)"
      using rtraverse_total [of pm "min_max cfg"] by blast
    note sc = rtraverse_scored [OF ms]
    have ne: "ms \<noteq> []" using sc(2) pm(2) by auto
    obtain r where "(if current_player st = MAX_sym cfg then py_max ms else py_min ms) = Inr r"
      using pick_first [OF sc(1) ne] by (cases "current_player st = MAX_sym cfg") auto
    then show ?thesis
      unfolding min_max_internal [OF False pm(1)] ms by (simp add: rbind_def lift_def)
  qed
qed

section \<open>Claim about the agreement of the two searches\<close>

text \<open>
  Claim C2. For every game, player and depth, \<^verbatim>\<open>alpha_beta\<close> started on a fresh search state
  with a window alpha \<le> beta that contains all leaf scores returns the same score and
  chooses a child with the same game as \<^verbatim>\<open>min_max\<close> (and both fail together). For a window
  with alpha < beta, such as the (-5000, 5000) of \<^verbatim>\<open>computer_turn\<close>, this holds whatever the
  leaf scores are. When the leaves are evaluated without error and every inner node has a
  child, both searches return.
\<close>

theorem alpha_beta_agrees_with_min_max:
  assumes "alpha \<le> beta"
    and "alpha < beta \<or> leaves_within cfg alpha beta (State_init g player d)"
  shows "chosen (alpha_beta cfg alpha beta (State_init g player d)) =
           chosen (min_max cfg (State_init g player d)) \<and>
         (leaves_within cfg alpha beta (State_init g player d) \<longrightarrow>
            chosen (min_max cfg (State_init g player d)) \<noteq> None)"
proof
  let ?st = "State_init g player d"
  show "chosen (alpha_beta cfg alpha beta ?st) = chosen (min_max cfg ?st)"
  proof (cases "alpha < beta")
    case True
    have "next_state ?st = None" by (simp add: State_init_def)
    with True have "returned (alpha_beta cfg alpha beta ?st) = returned (min_max cfg ?st)"
      by (rule alpha_beta_strict)
    then show ?thesis by (simp add: chosen_def)
  next
    case False
    then have eq: "beta = alpha" and lw: "leaves_within cfg alpha alpha ?st"
      using assms by auto
    obtain r r' where "min_max cfg ?st = Some (Inr r)" "alpha_beta cfg alpha alpha ?st = Some (Inr r')"
      "score r = Some alpha" "score r' = Some alpha"
      "map_option game (next_state r') = map_option game (next_state r)"
      using alpha_beta_point_window [OF lw] by blast
    then show ?thesis unfolding eq by (simp add: chosen_def)
  qed
  show "leaves_within cfg alpha beta ?st \<longrightarrow> chosen (min_max cfg ?st) \<noteq> None"
    using leaves_within_returns [of cfg alpha beta ?st] by (auto simp: chosen_def)
qed

theorem alpha_beta_agrees_with_min_max_witness:
  "(- 5000 :: int) \<le> 5000 \<and>
   leaves_within cfg12 (- 5000) 5000 (State_init game_three_sides ''O'' 2) \<and>
   chosen (alpha_beta cfg12 (- 5000) 5000 (State_init game_three_sides ''O'' 2)) =
     chosen (min_max cfg12 (State_init game_three_sides ''O'' 2)) \<and>
   chosen (min_max cfg12 (State_init game_three_sides ''O'' 2)) =
     Some (Some 2, Some game_left_closed)"
proof -
  have lw: "leaves_within cfg12 (- 5000) 5000 (State_init game_three_sides ''O'' 2)"
    by code_simp
  have mm: "chosen (min_max cfg12 (State_init game_three_sides ''O'' 2)) =
      Some (Some 2, Some game_left_closed)"
    by code_simp
  have le: "(- 5000 :: int) \<le> 5000" by simp
  from alpha_beta_agrees_with_min_max [OF le disjI2 [OF lw]] lw mm show ?thesis by simp
qed

section \<open>Counting the moves\<close>

lemma set_segments: "set (segments cfg) = {(line, column). on_lattice cfg line column}"
  by (auto simp: segments_def on_lattice_def)

lemma distinct_segments: "distinct (segments cfg)"
  by (simp add: segments_def distinct_product)

lemma distinct_concat_map_tag:
  assumes "distinct xs" and "\<And>x. x \<in> set xs \<Longrightarrow> distinct (f x)"
    and "\<And>x y. x \<in> set xs \<Longrightarrow> y \<in> set (f x) \<Longrightarrow> t y = x"
  shows "distinct (concat (map f xs))"
  using assms
proof (induction xs)
  case Nil
  then show ?case by simp
next
  case (Cons a xs)
  have "set (f a) \<inter> set (concat (map f xs)) = {}"
  proof (rule ccontr)
    assume "set (f a) \<inter> set (concat (map f xs)) \<noteq> {}"
    then obtain y x where "y \<in> set (f a)" "x \<in> set xs" "y \<in> set (f x)" by auto
    then have "t y = a" "t y = x" using Cons.prems(3) by auto
    then show False using \<open>x \<in> set xs\<close> Cons.prems(1) by auto
  qed
  moreover have "distinct (concat (map f xs))" using Cons by auto
  ultimately show ?case using Cons.prems(2) by simp
qed

lemma dir_distinct:
  "dir_up \<noteq> dir_left" "dir_up \<noteq> dir_right" "dir_up \<noteq> dir_down"
  "dir_left \<noteq> dir_right" "dir_left \<noteq> dir_down" "dir_right \<noteq> dir_down"
  "dir_left \<noteq> dir_up" "dir_right \<noteq> dir_up" "dir_down \<noteq> dir_up"
  "dir_right \<noteq> dir_left" "dir_down \<noteq> dir_left" "dir_down \<noteq> dir_right"
  by (simp_all add: dir_up_def dir_left_def dir_right_def dir_down_def)

lemma distinct_move_calls: "distinct (move_calls cfg)"
proof -
  let ?pair = "\<lambda>i j. [(dir_up, i, j), (dir_left, i, j)]"
  let ?row = "\<lambda>i. concat (map (?pair i) [0..COLUMNS cfg - 1]) @ [(dir_right, i, COLUMNS cfg - 1)]"
  let ?down = "map (\<lambda>j. (dir_down, LINES cfg - 1, j)) [0..COLUMNS cfg - 1]"
  have inner: "distinct (concat (map (?pair i) [0..COLUMNS cfg - 1]))" for i
    by (rule distinct_concat_map_tag [where t = "\<lambda>(d, i, j). j"]) (auto simp: dir_distinct)
  have row: "distinct (?row i)" for i
    using inner [of i] by (auto simp: dir_distinct)
  have rows: "distinct (concat (map ?row [0..LINES cfg - 1]))"
  proof (rule distinct_concat_map_tag [where t = "\<lambda>(d, i, j). i"])
    show "distinct [0..LINES cfg - 1]" by simp
    show "distinct (?row x)" for x by (rule row)
    show "(case y of (d, i, j) \<Rightarrow> i) = x" if "y \<in> set (?row x)" for x y
      using that by auto
  qed
  have down: "distinct ?down" by (simp add: distinct_map inj_on_def)
  have "set (concat (map ?row [0..LINES cfg - 1])) \<inter> set ?down = {}"
    by (auto simp: dir_distinct)
  then show ?thesis unfolding move_calls_def using rows down by simp
qed

lemma call_segment_canonical:
  assumes c: "c \<in> set (move_calls cfg)" and seg: "call_segment c = (line, column)"
    and dims: "1 \<le> LINES cfg" "1 \<le> COLUMNS cfg"
  shows "on_lattice cfg line column" and "lattice_call cfg line column = c"
proof -
  obtain d i j where cc: "c = (d, i, j)" by (cases c)
  consider (up) "d = dir_up" "in_scope cfg i j" | (left) "d = dir_left" "in_scope cfg i j"
    | (right) "d = dir_right" "0 \<le> i" "i < LINES cfg" "j = COLUMNS cfg - 1"
    | (down) "d = dir_down" "i = LINES cfg - 1" "0 \<le> j" "j < COLUMNS cfg"
    using c unfolding cc move_calls_iff by blast
  then have "on_lattice cfg line column \<and> lattice_call cfg line column = c"
  proof cases
    case up
    then have "line = 2 * i" "column = 2 * j + 1"
      using seg by (simp_all add: cc call_segment_def dir_up_def)
    then show ?thesis
      using up by (auto simp: cc on_lattice_def lattice_call_def in_scope_def)
  next
    case left
    then have "line = 2 * i + 1" "column = 2 * j"
      using seg by (simp_all add: cc call_segment_def dir_left_def)
    then show ?thesis
      using left by (auto simp: cc on_lattice_def lattice_call_def in_scope_def)
  next
    case right
    then have "line = 2 * i + 1" "column = 2 * COLUMNS cfg"
      using seg by (simp_all add: cc call_segment_def dir_right_def)
    then show ?thesis
      using right dims by (auto simp: cc on_lattice_def lattice_call_def)
  next
    case down
    then have "line = 2 * LINES cfg" "column = 2 * j + 1"
      using seg by (simp_all add: cc call_segment_def dir_down_def)
    then show ?thesis
      using down dims by (auto simp: cc on_lattice_def lattice_call_def)
  qed
  then show "on_lattice cfg line column" and "lattice_call cfg line column = c" by simp_all
qed

lemma lattice_call_canonical:
  assumes ol: "on_lattice cfg line column" and dims: "1 \<le> LINES cfg" "1 \<le> COLUMNS cfg"
  shows "lattice_call cfg line column \<in> set (move_calls cfg)"
    and "call_segment (lattice_call cfg line column) = (line, column)"
proof -
  have r: "0 \<le> line" "line \<le> 2 * LINES cfg" "0 \<le> column" "column \<le> 2 * COLUMNS cfg"
    "odd line \<longleftrightarrow> even column"
    using ol by (auto simp: on_lattice_def)
  consider (bottom) "line = 2 * LINES cfg"
    | (horizontal) "line \<noteq> 2 * LINES cfg" "line mod 2 = 0"
    | (right) "line mod 2 \<noteq> 0" "column = 2 * COLUMNS cfg"
    | (vertical) "line mod 2 \<noteq> 0" "column \<noteq> 2 * COLUMNS cfg"
    by blast
  then have "lattice_call cfg line column \<in> set (move_calls cfg) \<and>
      call_segment (lattice_call cfg line column) = (line, column)"
  proof cases
    case bottom
    then have "odd column" using r(5) by simp
    then have "0 \<le> column div 2" "column div 2 < COLUMNS cfg" "2 * (column div 2) + 1 = column"
      using r(3,4) by presburger+
    then show ?thesis
      using bottom by (simp add: lattice_call_def move_calls_iff call_segment_def dir_down_def)
  next
    case horizontal
    then have "odd column" using r(5) by presburger
    then have "0 \<le> column div 2" "column div 2 < COLUMNS cfg" "2 * (column div 2) + 1 = column"
      using r(3,4) by presburger+
    moreover have "0 \<le> line div 2" "line div 2 < LINES cfg" "2 * (line div 2) = line"
      using horizontal r(1,2) by presburger+
    ultimately show ?thesis
      using horizontal
      by (simp add: lattice_call_def move_calls_iff call_segment_def dir_up_def in_scope_def)
  next
    case right
    have ne: "line \<noteq> 2 * LINES cfg" using right(1) by presburger
    have "0 \<le> line div 2" "line div 2 < LINES cfg" "2 * (line div 2) + 1 = line"
      using right(1) r(1,2) by presburger+
    then show ?thesis
      using right ne by (simp add: lattice_call_def move_calls_iff call_segment_def dir_right_def)
  next
    case vertical
    have ne: "line \<noteq> 2 * LINES cfg" using vertical(1) by presburger
    have "even column" using vertical(1) r(5) by presburger
    then have "0 \<le> column div 2" "column div 2 < COLUMNS cfg" "2 * (column div 2) = column"
      using r(3,4) vertical(2) by presburger+
    moreover have "0 \<le> line div 2" "line div 2 < LINES cfg" "2 * (line div 2) + 1 = line"
      using vertical(1) r(1,2) by presburger+
    ultimately show ?thesis
      using vertical ne
      by (simp add: lattice_call_def move_calls_iff call_segment_def dir_left_def in_scope_def)
  qed
  then show "lattice_call cfg line column \<in> set (move_calls cfg)"
    and "call_segment (lattice_call cfg line column) = (line, column)" by simp_all
qed

lemma segment_drawn_mirrored:
  assumes mir: "mirrored cfg g" and ol: "on_lattice cfg line column"
    and dims: "1 \<le> LINES cfg" "1 \<le> COLUMNS cfg"
    and call: "lattice_call cfg line column = ((d0, d1, d2, d3), i, j)"
  shows "segment_drawn cfg g line column \<longleftrightarrow> bits_at g i j AND d0 \<noteq> 0"
proof -
  have sc: "in_scope cfg i j" and d: "(d0, d1, d2, d3) \<in> set directions"
    using lattice_call_in_scope [OF ol call dims] by simp_all
  show ?thesis
    unfolding segment_drawn_def segment_boxes_call [OF ol dims call]
    using mirroredD [OF mir d sc] by auto
qed

lemma free_call_undrawn:
  assumes wf: "wf_game cfg g" and c: "c \<in> set (move_calls cfg)"
    and seg: "call_segment c = (line, column)" and dims: "1 \<le> LINES cfg" "1 \<le> COLUMNS cfg"
  shows "free_call g c \<longleftrightarrow> \<not> segment_drawn cfg g line column"
proof -
  obtain d0 d1 d2 d3 i j where cc: "c = ((d0, d1, d2, d3), i, j)" by (cases c) auto
  have mir: "mirrored cfg g" using wf by (simp add: wf_game_def)
  note can = call_segment_canonical [OF c seg dims]
  show ?thesis
    using segment_drawn_mirrored [OF mir can(1) dims can(2) [unfolded cc]]
    by (simp add: cc free_call_def)
qed

lemma direction_by_code:
  assumes "(d0, d1, d2, d3) \<in> set directions" and "(e0, e1, e2, e3) \<in> set directions"
  shows "e0 = d0 \<Longrightarrow> e1 = d1 \<and> e2 = d2 \<and> e3 = d3"
    and "e0 = d3 \<Longrightarrow> e1 = - d1 \<and> e2 = - d2 \<and> e3 = d0"
  using direction_cases [OF assms(1)] direction_cases [OF assms(2)] by auto

lemma segment_drawn_apply_call:
  assumes wf: "wf_game cfg g" and c: "c \<in> set (move_calls cfg)" and free: "free_call g c"
    and ol: "on_lattice cfg line column" and dims: "1 \<le> LINES cfg" "1 \<le> COLUMNS cfg"
  shows "segment_drawn cfg (apply_call cfg g p c) line column \<longleftrightarrow>
           segment_drawn cfg g line column \<or> (line, column) = call_segment c"
proof -
  obtain d0 d1 d2 d3 i j where cc: "c = ((d0, d1, d2, d3), i, j)" by (cases c) auto
  have sc: "in_scope cfg i j" and d: "(d0, d1, d2, d3) \<in> set directions"
    using move_calls_in_scope [OF c [unfolded cc] dims] by simp_all
  have fr: "bits_at g i j AND d0 = 0" using free by (simp add: cc free_call_def)
  let ?g' = "added cfg g (d0, d1, d2, d3) i j p"
  have mir: "mirrored cfg g" using wf by (simp add: wf_game_def)
  have mir': "mirrored cfg ?g'" using wf sc d fr by (rule mirrored_added)
  obtain e0 e1 e2 e3 x y where call: "lattice_call cfg line column = ((e0, e1, e2, e3), x, y)"
    by (cases "lattice_call cfg line column") auto
  have xy: "in_scope cfg x y" and e: "(e0, e1, e2, e3) \<in> set directions"
    using lattice_call_in_scope [OF ol call dims] by simp_all
  note can = lattice_call_canonical [OF ol dims, unfolded call]
  have before: "segment_drawn cfg g line column \<longleftrightarrow> bits_at g x y AND e0 \<noteq> 0"
    using mir ol dims call by (rule segment_drawn_mirrored)
  have after: "segment_drawn cfg ?g' line column \<longleftrightarrow> bits_at ?g' x y AND e0 \<noteq> 0"
    using mir' ol dims call by (rule segment_drawn_mirrored)
  have here: "x = i \<and> y = j \<and> e0 = d0 \<longleftrightarrow> (line, column) = call_segment c"
  proof
    assume a: "x = i \<and> y = j \<and> e0 = d0"
    then have "e1 = d1 \<and> e2 = d2 \<and> e3 = d3"
      using direction_by_code(1) [OF d e] by blast
    then have "((e0, e1, e2, e3), x, y) = c" using a by (simp add: cc)
    then show "(line, column) = call_segment c" using can(2) by simp
  next
    assume a: "(line, column) = call_segment c"
    have "lattice_call cfg line column = c"
      using c a [symmetric] dims by (rule call_segment_canonical)
    then show "x = i \<and> y = j \<and> e0 = d0" using call by (simp add: cc)
  qed
  have there: "(line, column) = call_segment c"
    if "x = i + d1 \<and> y = j + d2 \<and> e0 = d3"
  proof -
    have "e1 = - d1 \<and> e2 = - d2 \<and> e3 = d0"
      using that direction_by_code(2) [OF d e] by blast
    then have "((e0, e1, e2, e3), x, y) = ((d3, - d1, - d2, d0), i + d1, j + d2)"
      using that by simp
    then have "call_segment ((e0, e1, e2, e3), x, y) = call_segment c"
      by (simp add: cc call_segment_def)
    then show ?thesis using can(2) by simp
  qed
  have key: "bits_at ?g' x y AND e0 \<noteq> 0 \<longleftrightarrow>
      bits_at g x y AND e0 \<noteq> 0 \<or> (line, column) = call_segment c"
    unfolding free_added [OF wf sc xy d fr direction_codes(1) [OF e]]
    using here there by blast
  have g': "apply_call cfg g p c = ?g'" by (simp add: cc apply_call_def)
  show ?thesis unfolding g' after before by (rule key)
qed

lemma game_child_state [simp]: "game (child_state cfg st g) = g"
  by (simp add: child_state_def State_init_def)

lemma inj_on_call_segment:
  assumes dims: "1 \<le> LINES cfg" "1 \<le> COLUMNS cfg"
  shows "inj_on call_segment (set (move_calls cfg))"
proof (rule inj_onI)
  fix a b
  assume a: "a \<in> set (move_calls cfg)" and b: "b \<in> set (move_calls cfg)"
    and eq: "call_segment a = call_segment b"
  obtain line column where seg: "call_segment a = (line, column)" by (cases "call_segment a")
  have "lattice_call cfg line column = a" using a seg dims by (rule call_segment_canonical)
  moreover have "lattice_call cfg line column = b"
    using b seg [unfolded eq] dims by (rule call_segment_canonical)
  ultimately show "a = b" by simp
qed

lemma undrawn_segments:
  assumes wf: "wf_game cfg g" and dims: "1 \<le> LINES cfg" "1 \<le> COLUMNS cfg"
  shows "set (map call_segment (filter (free_call g) (move_calls cfg))) =
           {(line, column). (line, column) \<in> set (segments cfg) \<and>
                            \<not> segment_drawn cfg g line column}"
proof (intro set_eqI iffI)
  fix s
  assume "s \<in> set (map call_segment (filter (free_call g) (move_calls cfg)))"
  then obtain c where c: "c \<in> set (move_calls cfg)" "free_call g c" "s = call_segment c"
    by auto
  obtain line column where seg: "call_segment c = (line, column)" by (cases "call_segment c")
  have "on_lattice cfg line column" using c(1) seg dims by (rule call_segment_canonical)
  moreover have "\<not> segment_drawn cfg g line column"
    using free_call_undrawn [OF wf c(1) seg dims] c(2) by simp
  ultimately show "s \<in> {(line, column). (line, column) \<in> set (segments cfg) \<and>
      \<not> segment_drawn cfg g line column}"
    by (simp add: c(3) seg set_segments)
next
  fix s
  assume "s \<in> {(line, column). (line, column) \<in> set (segments cfg) \<and>
      \<not> segment_drawn cfg g line column}"
  then obtain line column where s: "s = (line, column)" "on_lattice cfg line column"
    "\<not> segment_drawn cfg g line column"
    by (auto simp: set_segments)
  let ?c = "lattice_call cfg line column"
  note can = lattice_call_canonical [OF s(2) dims]
  have "free_call g ?c" using free_call_undrawn [OF wf can dims] s(3) by simp
  then have "?c \<in> set (filter (free_call g) (move_calls cfg))" using can(1) by simp
  then have "call_segment ?c \<in> call_segment ` set (filter (free_call g) (move_calls cfg))"
    by (rule imageI)
  then have "call_segment ?c \<in> set (map call_segment (filter (free_call g) (move_calls cfg)))"
    by (simp only: set_map)
  then show "s \<in> set (map call_segment (filter (free_call g) (move_calls cfg)))"
    by (simp only: can(2) s(1))
qed

lemma length_concat_const:
  assumes "\<And>x. length (f x) = n"
  shows "length (concat (map f xs)) = n * length xs"
  using assms by (induction xs) simp_all

lemma length_move_calls:
  assumes "1 \<le> LINES cfg" and "1 \<le> COLUMNS cfg"
  shows "int (length (move_calls cfg)) =
           LINES cfg * (COLUMNS cfg + 1) + (LINES cfg + 1) * COLUMNS cfg"
proof -
  let ?pair = "\<lambda>i j. [(dir_up, i, j), (dir_left, i, j)]"
  let ?row = "\<lambda>i. concat (map (?pair i) [0..COLUMNS cfg - 1]) @ [(dir_right, i, COLUMNS cfg - 1)]"
  have pair: "length (concat (map (?pair i) [0..COLUMNS cfg - 1])) = 2 * nat (COLUMNS cfg)" for i
    using length_concat_const [of "?pair i" 2 "[0..COLUMNS cfg - 1]"] by simp
  have row: "length (?row i) = 2 * nat (COLUMNS cfg) + 1" for i
    using pair [of i] by simp
  have "length (concat (map ?row [0..LINES cfg - 1])) =
      (2 * nat (COLUMNS cfg) + 1) * length [0..LINES cfg - 1]"
    using row by (rule length_concat_const)
  then have "length (concat (map ?row [0..LINES cfg - 1])) =
      (2 * nat (COLUMNS cfg) + 1) * nat (LINES cfg)"
    by simp
  then have "length (move_calls cfg) = (2 * nat (COLUMNS cfg) + 1) * nat (LINES cfg) + nat (COLUMNS cfg)"
    unfolding move_calls_def by simp
  then have "int (length (move_calls cfg)) =
      LINES cfg + 2 * COLUMNS cfg * LINES cfg + COLUMNS cfg"
    using assms by simp
  then show ?thesis by (simp add: algebra_simps)
qed

lemma total_segments_formula:
  assumes dims: "1 \<le> LINES cfg" "1 \<le> COLUMNS cfg"
  shows "total_segments cfg = LINES cfg * (COLUMNS cfg + 1) + (LINES cfg + 1) * COLUMNS cfg"
proof -
  have "set (segments cfg) = call_segment ` set (move_calls cfg)"
  proof (intro set_eqI iffI)
    fix s assume "s \<in> set (segments cfg)"
    then obtain line column where s: "s = (line, column)" "on_lattice cfg line column"
      by (auto simp: set_segments)
    note can = lattice_call_canonical [OF s(2) dims]
    show "s \<in> call_segment ` set (move_calls cfg)"
      unfolding s(1) using can(1) can(2) [symmetric] by (rule image_eqI [rotated])
  next
    fix s assume "s \<in> call_segment ` set (move_calls cfg)"
    then obtain c where c: "c \<in> set (move_calls cfg)" "s = call_segment c" by auto
    obtain line column where seg: "call_segment c = (line, column)" by (cases "call_segment c")
    have "on_lattice cfg line column" using c(1) seg dims by (rule call_segment_canonical)
    then show "s \<in> set (segments cfg)" by (simp add: c(2) seg set_segments)
  qed
  then have "card (set (segments cfg)) = card (set (move_calls cfg))"
    using card_image [OF inj_on_call_segment [OF dims]] by simp
  then have "length (segments cfg) = length (move_calls cfg)"
    using distinct_card [OF distinct_segments [of cfg]] distinct_card [OF distinct_move_calls [of cfg]]
    by simp
  then show ?thesis using length_move_calls [OF dims] by (simp add: total_segments_def)
qed

text \<open>
  Claim C4. On a reachable game the move generator of a search state returns exactly
  E - D children, where E = LINES (COLUMNS + 1) + (LINES + 1) COLUMNS is the number of
  segments of the grid and D the number of drawn ones. The children correspond, in order, to a list of segments without repetition that
  consists of exactly the undrawn segments, and the game of each child has exactly the
  segment of its position drawn in addition to those of the parent.
\<close>

theorem moves_count:
  assumes v: "valid_config cfg" and r: "reachable cfg (game st)"
  shows "\<exists>kids segs. moves_State cfg st = Inr kids \<and>
           int (length kids) = total_segments cfg - drawn_segments cfg (game st) \<and>
           total_segments cfg = LINES cfg * (COLUMNS cfg + 1) + (LINES cfg + 1) * COLUMNS cfg \<and>
           length segs = length kids \<and> distinct segs \<and>
           set segs = {(line, column). (line, column) \<in> set (segments cfg) \<and>
                                       \<not> segment_drawn cfg (game st) line column} \<and>
           (\<forall>k<length kids. \<forall>(line, column)\<in>set (segments cfg).
              segment_drawn cfg (game (kids ! k)) line column \<longleftrightarrow>
              segment_drawn cfg (game st) line column \<or> (line, column) = segs ! k)"
proof -
  let ?g = "game st" and ?p = "current_player st"
  let ?calls = "filter (free_call ?g) (move_calls cfg)"
  let ?kids = "map (\<lambda>c. child_state cfg st (apply_call cfg ?g ?p c)) ?calls"
  let ?segs = "map call_segment ?calls"
  let ?undrawn = "\<lambda>(line, column). \<not> segment_drawn cfg ?g line column"
  have wf: "wf_game cfg ?g" using v r by (rule reachable_wf)
  note dims = valid_config_dims(1,2) [OF v]
  have kids: "moves_State cfg st = Inr ?kids"
    using wf_game_shape [OF wf] dims by (rule moves_State_closed)
  have dist: "distinct ?segs"
    using distinct_move_calls [of cfg] inj_on_call_segment [OF dims]
    by (auto simp: distinct_map intro: inj_on_subset)
  have segs: "set ?segs = {(line, column). (line, column) \<in> set (segments cfg) \<and>
      \<not> segment_drawn cfg ?g line column}"
    using wf dims by (rule undrawn_segments)
  have "length ?segs = card (set ?segs)" using distinct_card [OF dist] by (simp only:)
  also have "\<dots> = card ({x. ?undrawn x} \<inter> set (segments cfg))"
    unfolding segs by (rule arg_cong [where f = card]) auto
  also have "\<dots> = length (filter ?undrawn (segments cfg))"
    using distinct_segments by (simp add: distinct_length_filter)
  finally have len: "length ?segs = length (filter ?undrawn (segments cfg))" .
  have "length (filter (\<lambda>(line, column). segment_drawn cfg ?g line column) (segments cfg)) +
      length (filter ?undrawn (segments cfg)) = length (segments cfg)"
  proof -
    have "(\<lambda>x. \<not> (case x of (line, column) \<Rightarrow> segment_drawn cfg ?g line column)) = ?undrawn"
      by auto
    then show ?thesis
      using sum_length_filter_compl
        [of "\<lambda>(line, column). segment_drawn cfg ?g line column" "segments cfg"]
      by (simp only:)
  qed
  then have count: "int (length ?kids) = total_segments cfg - drawn_segments cfg ?g"
    using len by (simp add: total_segments_def drawn_segments_def)
  have each: "segment_drawn cfg (game (?kids ! k)) line column \<longleftrightarrow>
      segment_drawn cfg ?g line column \<or> (line, column) = ?segs ! k"
    if "k < length ?kids" "(line, column) \<in> set (segments cfg)" for k line column
  proof -
    have k: "k < length ?calls" using that(1) by simp
    then have "?calls ! k \<in> set ?calls" by (rule nth_mem)
    then have c: "?calls ! k \<in> set (move_calls cfg)" "free_call ?g (?calls ! k)" by simp_all
    have ol: "on_lattice cfg line column" using that(2) by (simp add: set_segments)
    show ?thesis
      using segment_drawn_apply_call [OF wf c ol dims, of ?p] k by simp
  qed
  show ?thesis
  proof (intro exI [of _ ?kids] exI [of _ ?segs] conjI)
    show "\<forall>k<length ?kids. \<forall>(line, column)\<in>set (segments cfg).
        segment_drawn cfg (game (?kids ! k)) line column \<longleftrightarrow>
        segment_drawn cfg ?g line column \<or> (line, column) = ?segs ! k"
      using each by blast
  qed (use kids count dist segs total_segments_formula [OF dims] in simp_all)
qed

theorem moves_count_witness:
  "valid_config cfg11 \<and> reachable cfg11 (game (State_init (Game_init cfg11) ''X'' 1)) \<and>
   total_segments cfg11 = 4 \<and> drawn_segments cfg11 (Game_init cfg11) = 0 \<and>
   (\<exists>kids. moves_State cfg11 (State_init (Game_init cfg11) ''X'' 1) = Inr kids \<and>
      length kids = 4)"
proof -
  let ?st = "State_init (Game_init cfg11) ''X'' 1"
  have g: "game ?st = Game_init cfg11" by (simp add: State_init_def)
  have r: "reachable cfg11 (game ?st)" unfolding g by (rule reachable.start)
  have d: "drawn_segments cfg11 (Game_init cfg11) = 0" by code_simp
  obtain kids where k: "moves_State cfg11 ?st = Inr kids"
    "int (length kids) = total_segments cfg11 - drawn_segments cfg11 (game ?st)"
    "total_segments cfg11 = LINES cfg11 * (COLUMNS cfg11 + 1) + (LINES cfg11 + 1) * COLUMNS cfg11"
    using moves_count [OF valid_cfg11 r] by blast
  have t: "total_segments cfg11 = 4" using k(3) by (simp add: cfg11_def)
  have "length kids = 4" using k(2) d t unfolding g by simp
  then show ?thesis using valid_cfg11 r t d k(1) by blast
qed

end
